theory Spec2Isabelle
  imports Main
begin

section \<open>Values, keys and heap objects\<close>

text \<open>
  The reactive core of \<^verbatim>\<open>src/assets/core/ReactiveObserve.ts\<close>. JavaScript objects have
  identity, so every object (raw object or Proxy) is a reference into a heap; the two
  WeakMaps \<^verbatim>\<open>rawToProxy\<close> and \<^verbatim>\<open>proxyToRaw\<close> are partial maps on references. The Set
  objects that hold reactions are shared between \<^verbatim>\<open>connectionStore\<close> and each reaction's
  \<^verbatim>\<open>cleaners\<close> array, so they live in a store of their own, addressed by set references.
\<close>

type_synonym ref = nat
type_synonym rid = nat
type_synonym sid = nat

text \<open>Native functions found on \<^verbatim>\<open>Array.prototype\<close> (the ones the model gives a meaning to).\<close>

datatype native = NPush | NPop | NShift | NUnshift | NSplice | NIndexOf | NLastIndexOf
  | NIncludes | NReverse

text \<open>JavaScript values. Numbers are the integers and NaN; objects are references.\<close>

datatype val = VUndef | VNull | VBool bool | VNum int | VNaN | VStr string | VObj ref
  | VNative native

datatype symbol = ITERATION_KEY | WellKnown string | UserSymbol nat

text \<open>
  Keys of the dependency store. \<open>KStr\<close> is a string property key that is not an array index,
  \<open>KIdx n\<close> the canonical array-index key of \<open>n\<close>, \<open>KSym\<close> a symbol, and \<open>KVal v\<close> a key of a
  keyed collection (Map and Set keys are arbitrary values).
\<close>

datatype key = KStr string | KIdx nat | KSym symbol | KVal val

datatype jstype = TUndefined | TObject | TBoolean | TNumber | TString | TFunction

fun typeof :: "val \<Rightarrow> jstype" where
  "typeof VUndef = TUndefined"
| "typeof VNull = TObject"
| "typeof (VBool b) = TBoolean"
| "typeof (VNum n) = TNumber"
| "typeof VNaN = TNumber"
| "typeof (VStr s) = TString"
| "typeof (VObj r) = TObject"
| "typeof (VNative f) = TFunction"

definition isObject :: "val \<Rightarrow> bool" where
  "isObject v = (typeof v = TObject \<and> v \<noteq> VNull)"

text \<open>The operator \<^verbatim>\<open>===\<close>: NaN is different from itself, references compare by identity.\<close>

definition strict_eq :: "val \<Rightarrow> val \<Rightarrow> bool" where
  "strict_eq a b = (a \<noteq> VNaN \<and> a = b)"

text \<open>
  SameValueZero, the key equality of Map and Set and of \<^verbatim>\<open>includes\<close>, is equality of values
  here: NaN equals itself, and the two zeros are one integer.
\<close>

fun truthy :: "val \<Rightarrow> bool" where
  "truthy VUndef = False"
| "truthy VNull = False"
| "truthy (VBool b) = b"
| "truthy (VNum n) = (n \<noteq> 0)"
| "truthy VNaN = False"
| "truthy (VStr s) = (s \<noteq> [])"
| "truthy (VObj r) = True"
| "truthy (VNative f) = True"

text \<open>
  What \<^verbatim>\<open>obj.constructor\<close> evaluates to. \<open>TypedArray_ctor\<close> stands for the nine typed-array
  constructors of the \<^verbatim>\<open>handlers\<close> table, \<open>OtherGlobal_ctor\<close> for a constructor found on the
  global object that the table does not list (Date, RegExp, Promise, ...), \<open>User_ctor\<close> for a
  class that is not a property of the global object.
\<close>

datatype ctor = Object_ctor | Array_ctor | TypedArray_ctor | Map_ctor | Set_ctor
  | WeakMap_ctor | WeakSet_ctor | OtherGlobal_ctor | User_ctor

datatype handler = BaseHandlers | ArrayHandlers | CollectionHandlers

datatype content =
    Props "(key \<times> val) list"
  | Elems "val list"
  | Entries "(val \<times> val) list"
  | Members "val list"
  | Opaque

datatype obj = Raw ctor content | Proxy ref handler

section \<open>Operations, reactions and the global state\<close>

datatype optype = OGet | OIterate | OAdd | OSet | ODelete | OClear | OHas | OArray

text \<open>The interface \<^verbatim>\<open>Operation\<close>; an absent field is \<open>None\<close>.\<close>

record operation =
  op_type :: optype
  op_target :: ref
  op_key :: "key option"
  op_receiver :: "ref option"
  op_value :: "val option"
  op_oldValue :: "val option"
  op_inserted :: "val list option"
  op_insertedStart :: "int option"
  op_deleted :: "val list option"
  op_deletedStart :: "int option"

definition mk_op :: "optype \<Rightarrow> ref \<Rightarrow> key option \<Rightarrow> operation" where
  "mk_op ty target k = \<lparr> op_type = ty, op_target = target, op_key = k, op_receiver = None,
     op_value = None, op_oldValue = None, op_inserted = None, op_insertedStart = None,
     op_deleted = None, op_deletedStart = None \<rparr>"

text \<open>
  User code: the bodies of observed functions and the scripts that drive the engine. Every
  command acts on a value (normally a reference to a Proxy) through the language's own
  syntax: property read, write, delete, key enumeration, method call; or calls one of the
  four exported functions.
\<close>

datatype cmd =
    CGet val key
  | CIfGet val key "cmd list" "cmd list"
  | CSet val key val
  | CDelete val key
  | CKeys val
  | CMethod val key "val list"
  | CReactive val
  | CObserve "cmd list"
  | CUnobserve rid
  | CCall rid
  | CThrow

text \<open>
  A \<^verbatim>\<open>ReactionFunction\<close>: the function \<^verbatim>\<open>fn\<close> it wraps, its \<^verbatim>\<open>cleaners\<close> (references to the
  Sets it is a member of; the undefined of a fresh reaction is the empty list, which
  \<^verbatim>\<open>releaseReaction\<close> treats alike) and the flag \<^verbatim>\<open>unobserved\<close>.
\<close>

record reaction =
  fn :: "cmd list"
  cleaners :: "sid list"
  unobserved :: bool

text \<open>Ghost record of every application of a wrapped function \<^verbatim>\<open>fn\<close> with its argument.\<close>

datatype event = Invoked rid "operation option"

record state =
  heap :: "ref \<Rightarrow> obj option"
  next_ref :: ref
  rawToProxy :: "ref \<Rightarrow> ref option"
  proxyToRaw :: "ref \<Rightarrow> ref option"
  connectionStore :: "ref \<Rightarrow> (key \<Rightarrow> sid option) option"
  sets :: "sid \<Rightarrow> rid list option"
  next_sid :: sid
  reactions :: "rid \<Rightarrow> reaction option"
  next_rid :: rid
  reactionStack :: "rid list"
  trace :: "event list"

definition empty_state :: state where
  "empty_state = \<lparr> heap = Map.empty, next_ref = 0, rawToProxy = Map.empty,
     proxyToRaw = Map.empty, connectionStore = Map.empty, sets = Map.empty, next_sid = 0,
     reactions = Map.empty, next_rid = 0, reactionStack = [], trace = [] \<rparr>"

text \<open>Allocation of a raw object by the host program (an object literal, \<^verbatim>\<open>new Map()\<close>, ...).\<close>

definition alloc :: "ctor \<Rightarrow> content \<Rightarrow> state \<Rightarrow> ref \<times> state" where
  "alloc c b st = (next_ref st,
     st\<lparr> heap := (heap st)(next_ref st \<mapsto> Raw c b), next_ref := Suc (next_ref st) \<rparr>)"

section \<open>The proxy registry\<close>

definition isBuiltIn :: "ctor \<Rightarrow> bool" where
  "isBuiltIn c = (c \<noteq> User_ctor)"

definition handlers :: "ctor \<Rightarrow> handler option" where
  "handlers c = (case c of
      Object_ctor \<Rightarrow> Some BaseHandlers
    | Array_ctor \<Rightarrow> Some ArrayHandlers
    | TypedArray_ctor \<Rightarrow> Some ArrayHandlers
    | Map_ctor \<Rightarrow> Some CollectionHandlers
    | Set_ctor \<Rightarrow> Some CollectionHandlers
    | WeakMap_ctor \<Rightarrow> Some CollectionHandlers
    | WeakSet_ctor \<Rightarrow> Some CollectionHandlers
    | OtherGlobal_ctor \<Rightarrow> None
    | User_ctor \<Rightarrow> None)"

definition shouldInstrument :: "ctor \<Rightarrow> bool" where
  "shouldInstrument c = (\<not> isBuiltIn c \<or> handlers c \<noteq> None)"

definition getHandlers :: "ctor \<Rightarrow> handler" where
  "getHandlers c = (case handlers c of Some h \<Rightarrow> h | None \<Rightarrow> BaseHandlers)"

definition storeObservable :: "ref \<Rightarrow> state \<Rightarrow> state" where
  "storeObservable v st = st\<lparr> connectionStore := (connectionStore st)(v \<mapsto> Map.empty) \<rparr>"

definition createReactive :: "ref \<Rightarrow> ctor \<Rightarrow> state \<Rightarrow> ref \<times> state" where
  "createReactive r c st =
     (let p = next_ref st;
          st1 = st\<lparr> heap := (heap st)(p \<mapsto> Proxy r (getHandlers c)), next_ref := Suc p \<rparr>;
          st2 = st1\<lparr> rawToProxy := (rawToProxy st1)(r \<mapsto> p) \<rparr>;
          st3 = st2\<lparr> proxyToRaw := (proxyToRaw st2)(p \<mapsto> r) \<rparr>
      in (p, storeObservable r st3))"

text \<open>
  \<^verbatim>\<open>reactive(raw)\<close>. The result is \<open>None\<close> only for a dangling reference, and for a Proxy that
  the registry does not know (reading its constructor would run its traps).
\<close>

definition reactive :: "ref \<Rightarrow> state \<Rightarrow> (ref \<times> state) option" where
  "reactive r st =
     (if proxyToRaw st r \<noteq> None then Some (r, st)
      else case heap st r of
          None \<Rightarrow> None
        | Some (Proxy t h) \<Rightarrow> None
        | Some (Raw c b) \<Rightarrow>
            if \<not> shouldInstrument c then Some (r, st)
            else (case rawToProxy st r of
                Some p \<Rightarrow> Some (p, st)
              | None \<Rightarrow> Some (createReactive r c st)))"

text \<open>\<^verbatim>\<open>raw(proxy)\<close>: a lookup in \<^verbatim>\<open>proxyToRaw\<close>; a WeakMap answers undefined for any other key.\<close>

definition raw :: "state \<Rightarrow> val \<Rightarrow> val" where
  "raw st v = (case v of
      VObj p \<Rightarrow> (case proxyToRaw st p of Some r \<Rightarrow> VObj r | None \<Rightarrow> VUndef)
    | _ \<Rightarrow> VUndef)"

text \<open>
  The registry invariant: the two WeakMaps are inverse to each other, the target of a Proxy
  is not itself a registered Proxy, and references from \<open>next_ref\<close> on are unused.
\<close>

definition registry_ok :: "state \<Rightarrow> bool" where
  "registry_ok st =
     ((\<forall>r p. rawToProxy st r = Some p \<longleftrightarrow> proxyToRaw st p = Some r) \<and>
      (\<forall>p r. proxyToRaw st p = Some r \<longrightarrow>
          proxyToRaw st r = None \<and> p < next_ref st \<and> r < next_ref st) \<and>
      (\<forall>x. next_ref st \<le> x \<longrightarrow> heap st x = None))"

section \<open>The dependency store\<close>

text \<open>
  A JavaScript Set keeps insertion order and holds no element twice; \<open>set_add\<close> is
  \<^verbatim>\<open>Set.prototype.add\<close> on the list of its elements.
\<close>

definition set_add :: "'a list \<Rightarrow> 'a \<Rightarrow> 'a list" where
  "set_add xs x = (if x \<in> set xs then xs else xs @ [x])"

definition members :: "state \<Rightarrow> sid \<Rightarrow> rid list" where
  "members st s = (case sets st s of Some xs \<Rightarrow> xs | None \<Rightarrow> [])"

text \<open>
  The key under which an operation is looked up in the per-object Map. An operation built
  without a key has the key undefined, which a Map accepts like any other value.
\<close>

definition store_key :: "key option \<Rightarrow> key" where
  "store_key k = (case k of Some k' \<Rightarrow> k' | None \<Rightarrow> KVal VUndef)"

definition push_cleaner :: "rid \<Rightarrow> sid \<Rightarrow> state \<Rightarrow> state" where
  "push_cleaner r s st = (case reactions st r of
      None \<Rightarrow> st
    | Some re \<Rightarrow> st\<lparr> reactions := (reactions st)(r \<mapsto> re\<lparr> cleaners := cleaners re @ [s] \<rparr>) \<rparr>)"

text \<open>
  \<^verbatim>\<open>registerReactionForOperation\<close>. \<open>None\<close> is the TypeError of reading \<^verbatim>\<open>.get\<close> of undefined
  when the target has no entry in \<^verbatim>\<open>connectionStore\<close>.
\<close>

definition registerReactionForOperation :: "rid \<Rightarrow> operation \<Rightarrow> state \<Rightarrow> state option" where
  "registerReactionForOperation r opn st =
     (let k = (if op_type opn = OIterate then KSym ITERATION_KEY else store_key (op_key opn)) in
      case connectionStore st (op_target opn) of
        None \<Rightarrow> None
      | Some reactionsForRaw \<Rightarrow>
          let (s, st1) = (case reactionsForRaw k of
                Some s \<Rightarrow> (s, st)
              | None \<Rightarrow> (next_sid st,
                  st\<lparr> sets := (sets st)(next_sid st \<mapsto> []),
                      next_sid := Suc (next_sid st),
                      connectionStore := (connectionStore st)
                        (op_target opn \<mapsto> reactionsForRaw(k \<mapsto> next_sid st)) \<rparr>))
          in if r \<in> set (members st1 s) then Some st1
             else Some (push_cleaner r s
                    (st1\<lparr> sets := (sets st1)(s \<mapsto> members st1 s @ [r]) \<rparr>)))"

definition addReactionsForKey ::
  "rid list \<Rightarrow> state \<Rightarrow> (key \<Rightarrow> sid option) \<Rightarrow> key \<Rightarrow> rid list" where
  "addReactionsForKey reactionsForKey st reactionsForTarget k =
     (case reactionsForTarget k of
        None \<Rightarrow> reactionsForKey
      | Some s \<Rightarrow> foldl set_add reactionsForKey (members st s))"

text \<open>\<^verbatim>\<open>Array.isArray(target)\<close>: true of arrays, false of typed arrays and everything else.\<close>

definition isArray :: "state \<Rightarrow> ref \<Rightarrow> bool" where
  "isArray st t = (case heap st t of Some (Raw Array_ctor b) \<Rightarrow> True | _ \<Rightarrow> False)"

definition getReactionsForOperation :: "operation \<Rightarrow> state \<Rightarrow> rid list option" where
  "getReactionsForOperation opn st =
     (case connectionStore st (op_target opn) of
        None \<Rightarrow> None
      | Some reactionsForTarget \<Rightarrow>
          let reactionsForKey =
                addReactionsForKey [] st reactionsForTarget (store_key (op_key opn))
          in if op_type opn = OAdd \<or> op_type opn = ODelete \<or> op_type opn = OClear
                \<or> op_type opn = OArray
             then Some (addReactionsForKey reactionsForKey st reactionsForTarget
                    (if isArray st (op_target opn) then KStr ''length'' else KSym ITERATION_KEY))
             else Some reactionsForKey)"

definition set_delete :: "rid \<Rightarrow> sid \<Rightarrow> (sid \<Rightarrow> rid list option) \<Rightarrow> (sid \<Rightarrow> rid list option)" where
  "set_delete r s m = (case m s of Some xs \<Rightarrow> m(s \<mapsto> removeAll r xs) | None \<Rightarrow> m)"

definition releaseReaction :: "rid \<Rightarrow> state \<Rightarrow> state" where
  "releaseReaction r st = (case reactions st r of
      None \<Rightarrow> st
    | Some re \<Rightarrow>
        st\<lparr> sets := fold (set_delete r) (cleaners re) (sets st),
            reactions := (reactions st)(r \<mapsto> re\<lparr> cleaners := [] \<rparr>) \<rparr>)"

section \<open>The stack of running reactions\<close>

definition isRunning :: "rid \<Rightarrow> state \<Rightarrow> bool" where
  "isRunning r st = (r \<in> set (reactionStack st))"

definition hasRunningReaction :: "state \<Rightarrow> bool" where
  "hasRunningReaction st = (0 < length (reactionStack st))"

definition getRunningReaction :: "state \<Rightarrow> rid option" where
  "getRunningReaction st =
     (if reactionStack st = [] then None else Some (last (reactionStack st)))"

definition registerRunningReaction :: "operation \<Rightarrow> state \<Rightarrow> state option" where
  "registerRunningReaction opn st = (case getRunningReaction st of
      None \<Rightarrow> Some st
    | Some r \<Rightarrow> registerReactionForOperation r opn st)"

definition stack_push :: "rid \<Rightarrow> state \<Rightarrow> state" where
  "stack_push r st = st\<lparr> reactionStack := reactionStack st @ [r] \<rparr>"

definition stack_pop :: "state \<Rightarrow> state" where
  "stack_pop st = st\<lparr> reactionStack := butlast (reactionStack st) \<rparr>"

definition log_invoked :: "rid \<Rightarrow> operation option \<Rightarrow> state \<Rightarrow> state" where
  "log_invoked r a st = st\<lparr> trace := trace st @ [Invoked r a] \<rparr>"

section \<open>Trap handlers\<close>

datatype exn = TypeError | UserError

text \<open>
  The result of a handler: a value and the state after it, an exception and the state in
  which it was thrown, or \<open>Unmodelled\<close> for an input outside the fragment of JavaScript that
  the model covers (accessor properties, prototype chains, sparse arrays, ...).
\<close>

datatype 'a result = Return 'a state | Throw exn state | Unmodelled

subsection \<open>Own data properties of a plain object\<close>

definition hasOwn :: "(key \<times> val) list \<Rightarrow> key \<Rightarrow> bool" where
  "hasOwn ps k = (k \<in> set (map fst ps))"

text \<open>
  \<^verbatim>\<open>target[key]\<close> on a plain object: the objects of the model inherit nothing, so a key that
  is not an own property reads as undefined.
\<close>

definition prop_get :: "(key \<times> val) list \<Rightarrow> key \<Rightarrow> val" where
  "prop_get ps k = (case map_of ps k of Some v \<Rightarrow> v | None \<Rightarrow> VUndef)"

fun prop_put :: "key \<Rightarrow> val \<Rightarrow> (key \<times> val) list \<Rightarrow> (key \<times> val) list" where
  "prop_put k v [] = [(k, v)]"
| "prop_put k v (p # ps) = (if fst p = k then (k, v) # ps else p # prop_put k v ps)"

definition prop_delete :: "key \<Rightarrow> (key \<times> val) list \<Rightarrow> (key \<times> val) list" where
  "prop_delete k ps = filter (\<lambda>p. fst p \<noteq> k) ps"

definition is_wellKnown :: "key \<Rightarrow> bool" where
  "is_wellKnown k = (case k of KSym (WellKnown n) \<Rightarrow> True | _ \<Rightarrow> False)"

text \<open>The expression \<^verbatim>\<open>proxyToRaw.get(x) || x\<close>.\<close>

definition deproxy :: "state \<Rightarrow> val \<Rightarrow> val" where
  "deproxy st v = (case v of
      VObj p \<Rightarrow> (case proxyToRaw st p of Some r \<Rightarrow> VObj r | None \<Rightarrow> v)
    | _ \<Rightarrow> v)"

text \<open>The tail of \<^verbatim>\<open>baseHandlers.get\<close>: an object result is handed out as its wrapper.\<close>

definition wrap_nested :: "val \<Rightarrow> state \<Rightarrow> (val \<times> state) option" where
  "wrap_nested result st = (case result of
      VObj r \<Rightarrow> (case rawToProxy st r of
          Some p \<Rightarrow> Some (VObj p, st)
        | None \<Rightarrow> (case reactive r st of
              Some (p, st1) \<Rightarrow> Some (VObj p, st1)
            | None \<Rightarrow> None))
    | _ \<Rightarrow> Some (result, st))"

text \<open>The raw array at a reference: its constructor and its elements.\<close>

definition elems_of :: "state \<Rightarrow> ref \<Rightarrow> (ctor \<times> val list) option" where
  "elems_of st t = (case heap st t of
      Some (Raw c (Elems xs)) \<Rightarrow> Some (c, xs)
    | _ \<Rightarrow> None)"

text \<open>The raw plain object at a reference: its constructor and its own properties.\<close>

definition props_of :: "state \<Rightarrow> ref \<Rightarrow> (ctor \<times> (key \<times> val) list) option" where
  "props_of st t = (case heap st t of
      Some (Raw c (Props ps)) \<Rightarrow> Some (c, ps)
    | _ \<Rightarrow> None)"

text \<open>A write into the raw object \<open>target\<close>: its content is replaced.\<close>

definition put_content :: "ref \<Rightarrow> ctor \<Rightarrow> content \<Rightarrow> state \<Rightarrow> state" where
  "put_content target c b st = st\<lparr> heap := (heap st)(target \<mapsto> Raw c b) \<rparr>"

subsection \<open>baseHandlers\<close>

definition baseHandlers_get :: "ref \<Rightarrow> key \<Rightarrow> ref \<Rightarrow> state \<Rightarrow> val result" where
  "baseHandlers_get target k receiver st = (case props_of st target of
      Some (c, ps) \<Rightarrow>
        let result = prop_get ps k in
        if is_wellKnown k then Return result st
        else (case registerRunningReaction
                ((mk_op OGet target (Some k))\<lparr> op_receiver := Some receiver \<rparr>) st of
            None \<Rightarrow> Throw TypeError st
          | Some st1 \<Rightarrow> (case wrap_nested result st1 of
                Some (v, st2) \<Rightarrow> Return v st2
              | None \<Rightarrow> Unmodelled))
    | None \<Rightarrow> Unmodelled)"

definition baseHandlers_ownKeys :: "ref \<Rightarrow> state \<Rightarrow> key list result" where
  "baseHandlers_ownKeys target st = (case props_of st target of
      Some (c, ps) \<Rightarrow>
        (case registerRunningReaction (mk_op OIterate target None) st of
            None \<Rightarrow> Throw TypeError st
          | Some st1 \<Rightarrow> Return (map fst ps) st1)
    | None \<Rightarrow> Unmodelled)"

text \<open>
  \<^verbatim>\<open>baseHandlers.set\<close> up to its call of \<^verbatim>\<open>queueReactionsForOperation\<close>: the state after
  \<^verbatim>\<open>Reflect.set\<close> and the operation that is queued, if any.
\<close>

definition baseHandlers_set ::
  "ref \<Rightarrow> key \<Rightarrow> val \<Rightarrow> ref \<Rightarrow> state \<Rightarrow> (state \<times> operation option) option" where
  "baseHandlers_set target k v receiver st = (case props_of st target of
      Some (c, ps) \<Rightarrow>
        let v' = (if isObject v then deproxy st v else v);
            hadKey = hasOwn ps k;
            oldValue = prop_get ps k;
            st1 = put_content target c (Props (prop_put k v' ps)) st
        in if \<not> hadKey then
             Some (st1, Some ((mk_op OAdd target (Some k))
                \<lparr> op_receiver := Some receiver, op_value := Some v' \<rparr>))
           else if \<not> strict_eq oldValue v' then
             Some (st1, Some ((mk_op OSet target (Some k))
                \<lparr> op_receiver := Some receiver, op_value := Some v',
                  op_oldValue := Some oldValue \<rparr>))
           else Some (st1, None)
    | None \<Rightarrow> None)"

definition baseHandlers_deleteProperty ::
  "ref \<Rightarrow> key \<Rightarrow> state \<Rightarrow> (state \<times> operation option) option" where
  "baseHandlers_deleteProperty target k st = (case props_of st target of
      Some (c, ps) \<Rightarrow>
        let hadKey = hasOwn ps k;
            oldValue = prop_get ps k;
            st1 = put_content target c (Props (prop_delete k ps)) st
        in if hadKey then
             Some (st1, Some ((mk_op ODelete target (Some k))\<lparr> op_oldValue := Some oldValue \<rparr>))
           else Some (st1, None)
    | None \<Rightarrow> None)"

subsection \<open>arrayHandlers\<close>

definition array_proto :: "string \<Rightarrow> native option" where
  "array_proto s =
     (if s = ''push'' then Some NPush
      else if s = ''pop'' then Some NPop
      else if s = ''shift'' then Some NShift
      else if s = ''unshift'' then Some NUnshift
      else if s = ''splice'' then Some NSplice
      else if s = ''indexOf'' then Some NIndexOf
      else if s = ''lastIndexOf'' then Some NLastIndexOf
      else if s = ''includes'' then Some NIncludes
      else if s = ''reverse'' then Some NReverse
      else None)"

text \<open>
  \<^verbatim>\<open>Reflect.get\<close> on an array without holes and without properties of its own: an element
  (undefined past the end), the length, or a method of \<^verbatim>\<open>Array.prototype\<close>. \<open>None\<close> for a
  property that the model does not know: a method outside \<open>array_proto\<close>, a well-known
  symbol, a value that is not a property key.
\<close>

definition array_reflect_get :: "val list \<Rightarrow> key \<Rightarrow> val option" where
  "array_reflect_get xs k = (case k of
      KIdx i \<Rightarrow> Some (if i < length xs then xs ! i else VUndef)
    | KStr s \<Rightarrow> (if s = ''length'' then Some (VNum (int (length xs)))
                 else map_option VNative (array_proto s))
    | KSym sy \<Rightarrow> (if is_wellKnown k then None else Some VUndef)
    | KVal v \<Rightarrow> None)"

text \<open>
  What the get trap of an array returns: the value read, or the closure that wraps a
  function-valued result (it captures the key and the function).
\<close>

datatype getres = Plain val | Wrapped key val

definition arrayHandlers_get :: "ref \<Rightarrow> key \<Rightarrow> ref \<Rightarrow> state \<Rightarrow> getres result" where
  "arrayHandlers_get target k receiver st = (case elems_of st target of
      Some (c, xs) \<Rightarrow> (case array_reflect_get xs k of
          Some result \<Rightarrow>
            if is_wellKnown k then Return (Plain result) st
            else (case registerRunningReaction
                    ((mk_op OGet target (Some k))\<lparr> op_receiver := Some receiver \<rparr>) st of
                None \<Rightarrow> Throw TypeError st
              | Some st1 \<Rightarrow>
                  if typeof result = TFunction then Return (Wrapped k result) st1
                  else Return (Plain result) st1)
        | None \<Rightarrow> Unmodelled)
    | None \<Rightarrow> Unmodelled)"

text \<open>The value of a native call: a value, or a freshly built array.\<close>

datatype nres = RVal val | RArr "val list"

fun index_of :: "val list \<Rightarrow> val \<Rightarrow> nat \<Rightarrow> int" where
  "index_of [] v i = - 1"
| "index_of (x # xs) v i = (if strict_eq x v then int i else index_of xs v (Suc i))"

fun last_index_of :: "val list \<Rightarrow> val \<Rightarrow> nat \<Rightarrow> int" where
  "last_index_of [] v i = - 1"
| "last_index_of (x # xs) v i =
     (let j = last_index_of xs v (Suc i) in
      if 0 \<le> j then j else if strict_eq x v then int i else - 1)"

definition first_arg :: "val list \<Rightarrow> val" where
  "first_arg args = (case args of [] \<Rightarrow> VUndef | a # _ \<Rightarrow> a)"

definition as_num :: "val \<Rightarrow> int option" where
  "as_num v = (case v of VNum n \<Rightarrow> Some n | _ \<Rightarrow> None)"

text \<open>The arguments of \<^verbatim>\<open>splice(start, deleteCount, ...items)\<close> with both numbers integers.\<close>

definition splice_args :: "val list \<Rightarrow> (int \<times> int \<times> val list) option" where
  "splice_args args = (case args of
      a # b # items \<Rightarrow> (case as_num a of
          Some s \<Rightarrow> (case as_num b of Some d \<Rightarrow> Some (s, d, items) | None \<Rightarrow> None)
        | None \<Rightarrow> None)
    | _ \<Rightarrow> None)"

text \<open>
  \<^verbatim>\<open>Reflect.apply(f, target, args)\<close> for a native \<open>f\<close> on the elements \<open>xs\<close> of \<open>target\<close>: the new
  elements and the value returned. \<open>None\<close> outside the modelled argument shapes (splice
  takes integer start and delete count; a search takes no start index).
\<close>

definition apply_native ::
  "native \<Rightarrow> ref \<Rightarrow> val list \<Rightarrow> val list \<Rightarrow> (val list \<times> nres) option" where
  "apply_native f target xs args = (case f of
      NPush \<Rightarrow> Some (xs @ args, RVal (VNum (int (length xs + length args))))
    | NPop \<Rightarrow> (if xs = [] then Some ([], RVal VUndef) else Some (butlast xs, RVal (last xs)))
    | NShift \<Rightarrow> (case xs of [] \<Rightarrow> Some ([], RVal VUndef) | x # r \<Rightarrow> Some (r, RVal x))
    | NUnshift \<Rightarrow> Some (args @ xs, RVal (VNum (int (length xs + length args))))
    | NSplice \<Rightarrow> (case splice_args args of
          Some (s, d, items) \<Rightarrow>
            let len = int (length xs);
                start = nat (if s < 0 then max (len + s) 0 else min s len);
                cnt = nat (min (max d 0) (len - int start))
            in Some (take start xs @ items @ drop (start + cnt) xs,
                     RArr (take cnt (drop start xs)))
        | None \<Rightarrow> None)
    | NIndexOf \<Rightarrow> (if length args \<le> 1
          then Some (xs, RVal (VNum (index_of xs (first_arg args) 0))) else None)
    | NLastIndexOf \<Rightarrow> (if length args \<le> 1
          then Some (xs, RVal (VNum (last_index_of xs (first_arg args) 0))) else None)
    | NIncludes \<Rightarrow> (if length args \<le> 1
          then Some (xs, RVal (VBool (first_arg args \<in> set xs))) else None)
    | NReverse \<Rightarrow> Some (rev xs, RVal (VObj target)))"

text \<open>
  \<^verbatim>\<open>doArrayKeys\<close> up to its call of \<^verbatim>\<open>queueReactionsForOperation\<close>: the operation it builds.
  \<open>len\<close> is \<^verbatim>\<open>target.length\<close> after the native call. \<open>None\<close> when the result does not have the
  shape the method's case expects (\<^verbatim>\<open>Number\<close> of a non-number argument is not modelled).
\<close>

definition doArrayKeys ::
  "int \<Rightarrow> ref \<Rightarrow> ref \<Rightarrow> key \<Rightarrow> val list \<Rightarrow> nres \<Rightarrow> operation option" where
  "doArrayKeys len target receiver k args result =
     (let base = (mk_op OArray target (Some k))
            \<lparr> op_receiver := Some receiver, op_insertedStart := Some (- 1),
              op_deletedStart := Some (- 1) \<rparr>
      in if k = KStr ''push'' then
           Some (base\<lparr> op_inserted := Some args,
                      op_insertedStart := Some (len - int (length args)) \<rparr>)
         else if k = KStr ''pop'' then
           (case result of
              RVal v \<Rightarrow> Some (base\<lparr> op_deleted := Some [v], op_deletedStart := Some len \<rparr>)
            | RArr vs \<Rightarrow> None)
         else if k = KStr ''shift'' then
           (case result of
              RVal v \<Rightarrow> Some (base\<lparr> op_deleted := Some [v], op_deletedStart := Some 0 \<rparr>)
            | RArr vs \<Rightarrow> None)
         else if k = KStr ''unshift'' then
           Some (base\<lparr> op_inserted := Some args, op_insertedStart := Some 0 \<rparr>)
         else if k = KStr ''splice'' then
           (case splice_args args of
              Some (startIdx, deleteCount, items) \<Rightarrow> (case result of
                  RArr vs \<Rightarrow>
                    Some (base\<lparr> op_inserted := Some items,
                       op_insertedStart := Some (if 0 \<le> startIdx then startIdx else len),
                       op_deleted := Some vs,
                       op_deletedStart := Some (if 0 < deleteCount then startIdx else - 1) \<rparr>)
                | RVal v \<Rightarrow> None)
            | None \<Rightarrow> None)
         else Some base)"

text \<open>
  A call of the closure that the get trap returned for key \<open>k\<close> and function \<open>f\<close>, up to the
  call of \<^verbatim>\<open>queueReactionsForOperation\<close>: the state after the native call and the operation
  queued, if any. The two search methods look for the raw form of their first argument and
  queue nothing.
\<close>

definition array_wrapper_call ::
  "ref \<Rightarrow> ref \<Rightarrow> key \<Rightarrow> val \<Rightarrow> val list \<Rightarrow> state \<Rightarrow> (nres \<times> operation option) result" where
  "array_wrapper_call target receiver k f args st = (case f of
      VNative nf \<Rightarrow> (case elems_of st target of
          Some (c, xs) \<Rightarrow>
            if k = KStr ''indexOf'' \<or> k = KStr ''lastIndexOf'' then
              (case apply_native nf target xs (deproxy st (first_arg args) # tl args) of
                 Some (xs', res) \<Rightarrow> Return (res, None) (put_content target c (Elems xs') st)
               | None \<Rightarrow> Unmodelled)
            else
              (case apply_native nf target xs args of
                 Some (xs', res) \<Rightarrow>
                   (case doArrayKeys (int (length xs')) target receiver k args res of
                      Some opn \<Rightarrow> Return (res, Some opn) (put_content target c (Elems xs') st)
                    | None \<Rightarrow> Unmodelled)
               | None \<Rightarrow> Unmodelled)
        | None \<Rightarrow> Unmodelled)
    | _ \<Rightarrow> Unmodelled)"

text \<open>
  The Proxy of an array has no set trap: an assignment goes to the target as it is. Only
  assignment to an index is modelled; an index past the end fills the gap with undefined.
\<close>

definition array_default_set :: "ref \<Rightarrow> key \<Rightarrow> val \<Rightarrow> state \<Rightarrow> state option" where
  "array_default_set target k v st = (case elems_of st target of
      Some (c, xs) \<Rightarrow> (case k of
          KIdx i \<Rightarrow>
            Some (put_content target c (Elems
              (if i < length xs then xs[i := v]
               else xs @ replicate (i - length xs) VUndef @ [v])) st)
        | _ \<Rightarrow> None)
    | None \<Rightarrow> None)"

subsection \<open>collectionHandlers and the instrumented methods\<close>

text \<open>
  \<^verbatim>\<open>findReactive\<close>: a value yielded by a collection is wrapped only while a reaction runs.
\<close>

definition findReactive :: "val \<Rightarrow> state \<Rightarrow> (val \<times> state) option" where
  "findReactive v st = (case v of
      VObj r \<Rightarrow> (case rawToProxy st r of
          Some p \<Rightarrow> Some (VObj p, st)
        | None \<Rightarrow> if hasRunningReaction st
                  then (case reactive r st of
                      Some (p, st1) \<Rightarrow> Some (VObj p, st1)
                    | None \<Rightarrow> None)
                  else Some (v, st))
    | _ \<Rightarrow> Some (v, st))"

definition second_arg :: "val list \<Rightarrow> val" where
  "second_arg args = first_arg (tl args)"

definition entries_put :: "val \<Rightarrow> val \<Rightarrow> (val \<times> val) list \<Rightarrow> (val \<times> val) list" where
  "entries_put k v es =
     (if k \<in> set (map fst es) then map (\<lambda>e. if fst e = k then (k, v) else e) es
      else es @ [(k, v)])"

text \<open>
  The methods of \<^verbatim>\<open>instrumentations\<close> that the model covers, and the property names under
  which \<^verbatim>\<open>collectionHandlers.get\<close> finds them (\<^verbatim>\<open>forEach\<close> and the iterators are left out).
\<close>

datatype imethod = IHas | IGet | ISet | IAdd | IDelete | IClear

definition instrumented :: "string \<Rightarrow> imethod option" where
  "instrumented name =
     (if name = ''has'' then Some IHas
      else if name = ''get'' then Some IGet
      else if name = ''set'' then Some ISet
      else if name = ''add'' then Some IAdd
      else if name = ''delete'' then Some IDelete
      else if name = ''clear'' then Some IClear
      else None)"

text \<open>
  The instrumented methods on a Map (\<open>Entries\<close>), called with \<^verbatim>\<open>this\<close> the Proxy of \<open>target\<close>,
  up to the call of \<^verbatim>\<open>queueReactionsForOperation\<close>. The prototype of a Map has no \<^verbatim>\<open>add\<close>,
  so \<^verbatim>\<open>add\<close> ends in a TypeError.
\<close>

definition map_instrumentation ::
  "imethod \<Rightarrow> ref \<Rightarrow> ctor \<Rightarrow> (val \<times> val) list \<Rightarrow> val list \<Rightarrow> state
     \<Rightarrow> (val \<times> operation option) result" where
  "map_instrumentation m target c es args st =
     (let k = first_arg args; hadKey = (k \<in> set (map fst es)) in
      case m of
        IHas \<Rightarrow>
          (case registerRunningReaction (mk_op OHas target (Some (KVal k))) st of
             None \<Rightarrow> Throw TypeError st
           | Some st1 \<Rightarrow> Return (VBool hadKey, None) st1)
      | IGet \<Rightarrow>
          (case registerRunningReaction (mk_op OGet target (Some (KVal k))) st of
             None \<Rightarrow> Throw TypeError st
           | Some st1 \<Rightarrow>
               (case findReactive (case map_of es k of Some v \<Rightarrow> v | None \<Rightarrow> VUndef) st1 of
                  Some (v, st2) \<Rightarrow> Return (v, None) st2
                | None \<Rightarrow> Unmodelled))
      | ISet \<Rightarrow>
          (let v = second_arg args;
               oldValue = (case map_of es k of Some x \<Rightarrow> x | None \<Rightarrow> VUndef);
               st1 = put_content target c (Entries (entries_put k v es)) st
           in if \<not> hadKey
              then Return (VObj target, Some (mk_op OAdd target (Some (KVal k)))) st1
              else if \<not> strict_eq v oldValue
              then Return (VObj target, Some (mk_op OSet target (Some (KVal k)))) st1
              else Return (VObj target, None) st1)
      | IAdd \<Rightarrow> Throw TypeError st
      | IDelete \<Rightarrow>
          (let st1 = put_content target c (Entries (filter (\<lambda>e. fst e \<noteq> k) es)) st
           in if hadKey
              then Return (VBool True, Some (mk_op ODelete target (Some (KVal k)))) st1
              else Return (VBool False, None) st1)
      | IClear \<Rightarrow>
          (let st1 = put_content target c (Entries []) st
           in if es \<noteq> [] then Return (VUndef, Some (mk_op OClear target None)) st1
              else Return (VUndef, None) st1))"

text \<open>
  The same methods on a Set (\<open>Members\<close>). The prototype of a Set has no \<^verbatim>\<open>get\<close> and no
  \<^verbatim>\<open>set\<close>: \<^verbatim>\<open>get\<close> fails after registering the read, \<^verbatim>\<open>set\<close> when it reads the old value.
\<close>

definition set_instrumentation ::
  "imethod \<Rightarrow> ref \<Rightarrow> ctor \<Rightarrow> val list \<Rightarrow> val list \<Rightarrow> state
     \<Rightarrow> (val \<times> operation option) result" where
  "set_instrumentation m target c ms args st =
     (let k = first_arg args; hadKey = (k \<in> set ms) in
      case m of
        IHas \<Rightarrow>
          (case registerRunningReaction (mk_op OHas target (Some (KVal k))) st of
             None \<Rightarrow> Throw TypeError st
           | Some st1 \<Rightarrow> Return (VBool hadKey, None) st1)
      | IGet \<Rightarrow>
          (case registerRunningReaction (mk_op OGet target (Some (KVal k))) st of
             None \<Rightarrow> Throw TypeError st
           | Some st1 \<Rightarrow> Throw TypeError st1)
      | ISet \<Rightarrow> Throw TypeError st
      | IAdd \<Rightarrow>
          (let st1 = put_content target c (Members (set_add ms k)) st
           in if \<not> hadKey
              then Return (VObj target, Some (mk_op OAdd target (Some (KVal k)))) st1
              else Return (VObj target, None) st1)
      | IDelete \<Rightarrow>
          (let st1 = put_content target c (Members (removeAll k ms)) st
           in if hadKey
              then Return (VBool True, Some (mk_op ODelete target (Some (KVal k)))) st1
              else Return (VBool False, None) st1)
      | IClear \<Rightarrow>
          (let st1 = put_content target c (Members []) st
           in if ms \<noteq> [] then Return (VUndef, Some (mk_op OClear target None)) st1
              else Return (VUndef, None) st1))"

text \<open>
  A call of an instrumented method with \<^verbatim>\<open>this\<close> the Proxy of a keyed collection; the
  method finds its target with \<^verbatim>\<open>proxyToRaw.get(this)\<close>.
\<close>

definition instrumentations_call ::
  "imethod \<Rightarrow> ref \<Rightarrow> val list \<Rightarrow> state \<Rightarrow> (val \<times> operation option) result" where
  "instrumentations_call m this args st = (case proxyToRaw st this of
      None \<Rightarrow> Unmodelled
    | Some target \<Rightarrow> (case heap st target of
          Some (Raw c (Entries es)) \<Rightarrow> map_instrumentation m target c es args st
        | Some (Raw c (Members ms)) \<Rightarrow> set_instrumentation m target c ms args st
        | _ \<Rightarrow> Unmodelled))"

text \<open>The getter \<^verbatim>\<open>size\<close> of \<^verbatim>\<open>instrumentations\<close>.\<close>

definition instrumentations_size :: "ref \<Rightarrow> state \<Rightarrow> val result" where
  "instrumentations_size this st = (case proxyToRaw st this of
      None \<Rightarrow> Unmodelled
    | Some target \<Rightarrow>
        (case registerRunningReaction (mk_op OIterate target None) st of
           None \<Rightarrow> Throw TypeError st
         | Some st1 \<Rightarrow> (case heap st1 target of
               Some (Raw c (Entries es)) \<Rightarrow> Return (VNum (int (length es))) st1
             | Some (Raw c (Members ms)) \<Rightarrow> Return (VNum (int (length ms))) st1
             | _ \<Rightarrow> Unmodelled)))"

section \<open>Reactions: observe, unobserve and the interpreter of user code\<close>

definition new_reaction :: "cmd list \<Rightarrow> state \<Rightarrow> rid \<times> state" where
  "new_reaction body st = (next_rid st,
     st\<lparr> reactions := (reactions st)
            (next_rid st \<mapsto> \<lparr> fn = body, cleaners = [], unobserved = False \<rparr>),
         next_rid := Suc (next_rid st) \<rparr>)"

text \<open>\<^verbatim>\<open>unobserve\<close>; \<open>None\<close> for a reference to a reaction that does not exist.\<close>

definition unobserve :: "rid \<Rightarrow> state \<Rightarrow> state option" where
  "unobserve r st = (case reactions st r of
      None \<Rightarrow> None
    | Some re \<Rightarrow>
        if \<not> unobserved re
        then Some (releaseReaction r
               (st\<lparr> reactions := (reactions st)(r \<mapsto> re\<lparr> unobserved := True \<rparr>) \<rparr>))
        else Some st)"

text \<open>
  What remains to be run: a sequence of commands, a call of a reaction with its argument,
  or the \<^verbatim>\<open>forEach\<close> of \<^verbatim>\<open>queueReactionsForOperation\<close> over the reactions still to call.
\<close>

datatype task = Cmds "cmd list" | Call rid "operation option" | Queue "rid list" operation

text \<open>
  A command up to its first call of a reaction: the state reached and the task that
  follows before the next command starts.
\<close>

datatype trapres = Yields state task | Throws exn state | NotModelled

definition queueReactionsForOperation :: "operation \<Rightarrow> state \<Rightarrow> trapres" where
  "queueReactionsForOperation opn st = (case getReactionsForOperation opn st of
      None \<Rightarrow> Throws TypeError st
    | Some rs \<Rightarrow> Yields st (Queue rs opn))"

definition queue_opt :: "operation option \<Rightarrow> state \<Rightarrow> trapres" where
  "queue_opt q st = (case q of
      None \<Rightarrow> Yields st (Cmds [])
    | Some opn \<Rightarrow> queueReactionsForOperation opn st)"

text \<open>A property read \<^verbatim>\<open>v[k]\<close> as user code sees it.\<close>

definition read_prop :: "val \<Rightarrow> key \<Rightarrow> state \<Rightarrow> val result" where
  "read_prop v k st = (case v of
      VObj p \<Rightarrow> (case heap st p of
          Some (Proxy t BaseHandlers) \<Rightarrow> baseHandlers_get t k p st
        | Some (Proxy t ArrayHandlers) \<Rightarrow> (case arrayHandlers_get t k p st of
              Return (Plain x) st1 \<Rightarrow> Return x st1
            | Return (Wrapped k' f) st1 \<Rightarrow> Return f st1
            | Throw e st1 \<Rightarrow> Throw e st1
            | Unmodelled \<Rightarrow> Unmodelled)
        | Some (Proxy t CollectionHandlers) \<Rightarrow>
            (if k = KStr ''size'' then instrumentations_size p st else Unmodelled)
        | Some (Raw c (Props ps)) \<Rightarrow> Return (prop_get ps k) st
        | Some (Raw c (Elems xs)) \<Rightarrow> (case array_reflect_get xs k of
              Some x \<Rightarrow> Return x st
            | None \<Rightarrow> Unmodelled)
        | _ \<Rightarrow> Unmodelled)
    | _ \<Rightarrow> Unmodelled)"

definition trap_get :: "val \<Rightarrow> key \<Rightarrow> (val \<Rightarrow> task) \<Rightarrow> state \<Rightarrow> trapres" where
  "trap_get v k cont st = (case read_prop v k st of
      Return x st1 \<Rightarrow> Yields st1 (cont x)
    | Throw e st1 \<Rightarrow> Throws e st1
    | Unmodelled \<Rightarrow> NotModelled)"

text \<open>An assignment \<^verbatim>\<open>v[k] = x\<close>.\<close>

definition trap_set :: "val \<Rightarrow> key \<Rightarrow> val \<Rightarrow> state \<Rightarrow> trapres" where
  "trap_set v k x st = (case v of
      VObj p \<Rightarrow> (case heap st p of
          Some (Proxy t BaseHandlers) \<Rightarrow> (case baseHandlers_set t k x p st of
              Some (st1, q) \<Rightarrow> queue_opt q st1
            | None \<Rightarrow> NotModelled)
        | Some (Proxy t ArrayHandlers) \<Rightarrow> (case array_default_set t k x st of
              Some st1 \<Rightarrow> Yields st1 (Cmds [])
            | None \<Rightarrow> NotModelled)
        | Some (Raw c (Props ps)) \<Rightarrow>
            Yields (put_content p c (Props (prop_put k x ps)) st) (Cmds [])
        | Some (Raw c (Elems xs)) \<Rightarrow> (case array_default_set p k x st of
              Some st1 \<Rightarrow> Yields st1 (Cmds [])
            | None \<Rightarrow> NotModelled)
        | _ \<Rightarrow> NotModelled)
    | _ \<Rightarrow> NotModelled)"

text \<open>\<^verbatim>\<open>delete v[k]\<close>.\<close>

definition trap_delete :: "val \<Rightarrow> key \<Rightarrow> state \<Rightarrow> trapres" where
  "trap_delete v k st = (case v of
      VObj p \<Rightarrow> (case heap st p of
          Some (Proxy t BaseHandlers) \<Rightarrow> (case baseHandlers_deleteProperty t k st of
              Some (st1, q) \<Rightarrow> queue_opt q st1
            | None \<Rightarrow> NotModelled)
        | Some (Raw c (Props ps)) \<Rightarrow>
            Yields (put_content p c (Props (prop_delete k ps)) st) (Cmds [])
        | _ \<Rightarrow> NotModelled)
    | _ \<Rightarrow> NotModelled)"

text \<open>\<^verbatim>\<open>Object.keys(v)\<close>.\<close>

definition trap_keys :: "val \<Rightarrow> state \<Rightarrow> trapres" where
  "trap_keys v st = (case v of
      VObj p \<Rightarrow> (case heap st p of
          Some (Proxy t BaseHandlers) \<Rightarrow> (case baseHandlers_ownKeys t st of
              Return ks st1 \<Rightarrow> Yields st1 (Cmds [])
            | Throw e st1 \<Rightarrow> Throws e st1
            | Unmodelled \<Rightarrow> NotModelled)
        | Some (Raw c (Props ps)) \<Rightarrow> Yields st (Cmds [])
        | _ \<Rightarrow> NotModelled)
    | _ \<Rightarrow> NotModelled)"

text \<open>
  A method call \<^verbatim>\<open>v[k](...args)\<close>: on the Proxy of an array the get trap runs first and its
  result is called; on the Proxy of a keyed collection the instrumented method runs.
\<close>

definition trap_method :: "val \<Rightarrow> key \<Rightarrow> val list \<Rightarrow> state \<Rightarrow> trapres" where
  "trap_method v k args st = (case v of
      VObj p \<Rightarrow> (case heap st p of
          Some (Proxy t ArrayHandlers) \<Rightarrow> (case arrayHandlers_get t k p st of
              Return (Wrapped k' f) st1 \<Rightarrow> (case array_wrapper_call t p k' f args st1 of
                  Return (res, q) st2 \<Rightarrow> queue_opt q st2
                | Throw e st2 \<Rightarrow> Throws e st2
                | Unmodelled \<Rightarrow> NotModelled)
            | Return (Plain x) st1 \<Rightarrow> Throws TypeError st1
            | Throw e st1 \<Rightarrow> Throws e st1
            | Unmodelled \<Rightarrow> NotModelled)
        | Some (Proxy t CollectionHandlers) \<Rightarrow> (case k of
              KStr name \<Rightarrow> (case instrumented name of
                  Some m \<Rightarrow> (case instrumentations_call m p args st of
                      Return (res, q) st1 \<Rightarrow> queue_opt q st1
                    | Throw e st1 \<Rightarrow> Throws e st1
                    | Unmodelled \<Rightarrow> NotModelled)
                | None \<Rightarrow> NotModelled)
            | _ \<Rightarrow> NotModelled)
        | Some (Raw c (Elems xs)) \<Rightarrow> (case array_reflect_get xs k of
              Some f \<Rightarrow> (case f of
                  VNative nf \<Rightarrow> (case apply_native nf p xs args of
                      Some (xs', res) \<Rightarrow> Yields (put_content p c (Elems xs') st) (Cmds [])
                    | None \<Rightarrow> NotModelled)
                | _ \<Rightarrow> Throws TypeError st)
            | None \<Rightarrow> NotModelled)
        | _ \<Rightarrow> NotModelled)
    | _ \<Rightarrow> NotModelled)"

fun trap :: "cmd \<Rightarrow> state \<Rightarrow> trapres" where
  "trap (CGet v k) st = trap_get v k (\<lambda>x. Cmds []) st"
| "trap (CIfGet v k c1 c2) st = trap_get v k (\<lambda>x. Cmds (if truthy x then c1 else c2)) st"
| "trap (CSet v k x) st = trap_set v k x st"
| "trap (CDelete v k) st = trap_delete v k st"
| "trap (CKeys v) st = trap_keys v st"
| "trap (CMethod v k args) st = trap_method v k args st"
| "trap (CReactive v) st = (case v of
      VObj r \<Rightarrow> (case reactive r st of
          Some (p, st1) \<Rightarrow> Yields st1 (Cmds [])
        | None \<Rightarrow> NotModelled)
    | _ \<Rightarrow> NotModelled)"
| "trap (CObserve body) st = (case new_reaction body st of (r, st1) \<Rightarrow> Yields st1 (Call r None))"
| "trap (CUnobserve r) st = (case unobserve r st of
      Some st1 \<Rightarrow> Yields st1 (Cmds [])
    | None \<Rightarrow> NotModelled)"
| "trap (CCall r) st = Yields st (Call r None)"
| "trap CThrow st = Throws UserError st"

text \<open>
  The outcome of running a task with a bound on the depth of the computation: the final
  state, an exception that reached the caller, the bound was too small, or the run left
  the modelled fragment.
\<close>

datatype outcome = Done state | Raised exn state | OutOfFuel | Stuck

text \<open>
  The interpreter. \<open>Call r a\<close> is \<^verbatim>\<open>runReactionWrap\<close>: a stopped reaction runs its function
  untracked, a running one returns at once, any other is released, pushed, run and, in the
  \<^verbatim>\<open>finally\<close> block, popped whether the function returned or threw. \<open>Queue rs opn\<close> calls the
  reactions of \<open>rs\<close> in order with the operation; an exception ends the \<^verbatim>\<open>forEach\<close>.
\<close>

fun run :: "nat \<Rightarrow> task \<Rightarrow> state \<Rightarrow> outcome" where
  "run 0 t st = OutOfFuel"
| "run (Suc n) (Cmds []) st = Done st"
| "run (Suc n) (Cmds (c # cs)) st = (case trap c st of
      NotModelled \<Rightarrow> Stuck
    | Throws e st1 \<Rightarrow> Raised e st1
    | Yields st1 follow \<Rightarrow> (case run n follow st1 of
          Done st2 \<Rightarrow> run n (Cmds cs) st2
        | other \<Rightarrow> other))"
| "run (Suc n) (Queue [] opn) st = Done st"
| "run (Suc n) (Queue (r # rs) opn) st = (case run n (Call r (Some opn)) st of
      Done st1 \<Rightarrow> run n (Queue rs opn) st1
    | other \<Rightarrow> other)"
| "run (Suc n) (Call r a) st = (case reactions st r of
      None \<Rightarrow> Stuck
    | Some re \<Rightarrow>
        if unobserved re then run n (Cmds (fn re)) (log_invoked r a st)
        else if isRunning r st then Done st
        else (case run n (Cmds (fn re))
                     (log_invoked r a (stack_push r (releaseReaction r st))) of
            Done st1 \<Rightarrow> Done (stack_pop st1)
          | Raised e st1 \<Rightarrow> Raised e (stack_pop st1)
          | OutOfFuel \<Rightarrow> OutOfFuel
          | Stuck \<Rightarrow> Stuck))"

section \<open>Steps of the engine outside a reaction call\<close>

text \<open>
  Between two calls of reactions, every handler changes the state only by a sequence of
  the following steps: registering a read for the running reaction, wrapping an object,
  writing into a raw object, stopping a reaction, creating a reaction.
\<close>

inductive prim :: "state \<Rightarrow> state \<Rightarrow> bool" where
  p_register: "registerRunningReaction opn st = Some st1 \<Longrightarrow> prim st st1"
| p_reactive: "reactive r st = Some (p, st1) \<Longrightarrow> prim st st1"
| p_write: "heap st t = Some (Raw c b0) \<Longrightarrow> prim st (put_content t c b st)"
| p_unobserve: "unobserve r st = Some st1 \<Longrightarrow> prim st st1"
| p_new: "new_reaction body st = (r, st1) \<Longrightarrow> prim st st1"

definition steps :: "state \<Rightarrow> state \<Rightarrow> bool" where
  "steps = prim\<^sup>*\<^sup>*"

definition res_all :: "(state \<Rightarrow> bool) \<Rightarrow> 'a result \<Rightarrow> bool" where
  "res_all P res = (case res of Return x st \<Rightarrow> P st | Throw e st \<Rightarrow> P st | Unmodelled \<Rightarrow> True)"

definition out_all :: "(state \<Rightarrow> bool) \<Rightarrow> outcome \<Rightarrow> bool" where
  "out_all P out = (case out of Done st \<Rightarrow> P st | Raised e st \<Rightarrow> P st | _ \<Rightarrow> True)"

definition trap_all :: "(state \<Rightarrow> bool) \<Rightarrow> trapres \<Rightarrow> bool" where
  "trap_all P tr = (case tr of Yields st f \<Rightarrow> P st | Throws e st \<Rightarrow> P st | NotModelled \<Rightarrow> True)"

section \<open>Invariant of the dependency store\<close>

text \<open>
  Every membership of a reaction in a Set is recorded in its \<^verbatim>\<open>cleaners\<close>, every reaction on
  the stack exists, and reaction identities from \<open>next_rid\<close> on are unused.
\<close>

definition deps_ok :: "state \<Rightarrow> bool" where
  "deps_ok st =
     ((\<forall>s r. r \<in> set (members st s) \<longrightarrow>
          (\<exists>re. reactions st r = Some re \<and> s \<in> set (cleaners re))) \<and>
      (\<forall>r. r \<in> set (reactionStack st) \<longrightarrow> reactions st r \<noteq> None) \<and>
      (\<forall>r. next_rid st \<le> r \<longrightarrow> reactions st r = None))"


text \<open>
  Every Proxy of the heap is registered, and its target has an entry in
  \<^verbatim>\<open>connectionStore\<close>.
\<close>

definition wrappers_ok :: "state \<Rightarrow> bool" where
  "wrappers_ok st =
     (\<forall>p t h. heap st p = Some (Proxy t h) \<longrightarrow>
        proxyToRaw st p = Some t \<and> connectionStore st t \<noteq> None)"

section \<open>A stopped reaction that is in no Set\<close>

text \<open>The calls of reaction \<open>r\<close> that came from \<^verbatim>\<open>queueReactionsForOperation\<close>.\<close>

definition triggered :: "rid \<Rightarrow> event list \<Rightarrow> event list" where
  "triggered r evs = filter (\<lambda>ev. case ev of Invoked r' a \<Rightarrow> r' = r \<and> a \<noteq> None) evs"

text \<open>A task that does not call reaction \<open>r\<close> with an operation.\<close>

definition spares :: "rid \<Rightarrow> task \<Rightarrow> bool" where
  "spares r t = (case t of
      Cmds cs \<Rightarrow> True
    | Call r' a \<Rightarrow> r' \<noteq> r \<or> a = None
    | Queue rs opn \<Rightarrow> r \<notin> set rs)"

text \<open>
  Reaction \<open>r\<close> exists, is stopped, is not running and is a member of no Set, and \<open>evs\<close> are
  the calls it has received from \<^verbatim>\<open>queueReactionsForOperation\<close>.
\<close>

definition retired :: "rid \<Rightarrow> event list \<Rightarrow> state \<Rightarrow> bool" where
  "retired r evs st =
     ((case reactions st r of Some re \<Rightarrow> unobserved re | None \<Rightarrow> False) \<and>
      r < next_rid st \<and> \<not> isRunning r st \<and>
      (\<forall>s. r \<notin> set (members st s)) \<and> triggered r (trace st) = evs)"

section \<open>Example states\<close>

definition plain_state :: state where
  "plain_state = snd (alloc Object_ctor (Props [(KStr ''a'', VNum 1)]) empty_state)"

definition date_state :: state where
  "date_state = snd (alloc OtherGlobal_ctor Opaque empty_state)"

definition wrapped_state :: state where
  "wrapped_state = snd (createReactive 0 Object_ctor plain_state)"

definition thrower_state :: state where
  "thrower_state = snd (new_reaction [CThrow] empty_state)"

text \<open>
  A plain object \<^verbatim>\<open>{flag: true, a: va}\<close> at reference 0 with its wrapper at reference 1, and
  the body of a reaction that reads \<^verbatim>\<open>o.a\<close> only while \<^verbatim>\<open>o.flag\<close> is truthy.
\<close>

definition branch_state :: "val \<Rightarrow> state" where
  "branch_state va = snd (createReactive 0 Object_ctor
     (snd (alloc Object_ctor (Props [(KStr ''flag'', VBool True), (KStr ''a'', va)])
        empty_state)))"

definition branch_body :: "cmd list" where
  "branch_body = [CIfGet (VObj 1) (KStr ''flag'') [CGet (VObj 1) (KStr ''a'')] []]"

text \<open>The events recorded by a run that ended, normally or with an exception.\<close>

definition trace_of :: "outcome \<Rightarrow> event list option" where
  "trace_of out = (case out of
      Done st \<Rightarrow> Some (trace st)
    | Raised e st \<Rightarrow> Some (trace st)
    | _ \<Rightarrow> None)"

text \<open>An event reduced to the reaction called and the kind and key of the operation passed.\<close>

definition event_kind :: "event \<Rightarrow> rid \<times> (optype \<times> key option) option" where
  "event_kind ev = (case ev of
      Invoked r a \<Rightarrow> (r, map_option (\<lambda>opn. (op_type opn, op_key opn)) a))"

text \<open>The state in which a run ended (the empty state when it did not end).\<close>

definition state_of :: "outcome \<Rightarrow> state" where
  "state_of out = (case out of Done st \<Rightarrow> st | Raised e st \<Rightarrow> st | _ \<Rightarrow> empty_state)"

definition is_done :: "outcome \<Rightarrow> bool" where
  "is_done out = (case out of Done st \<Rightarrow> True | _ \<Rightarrow> False)"

text \<open>
  The branching reaction observed on \<^verbatim>\<open>{flag: true, a: 1}\<close>, and the state after the write
  \<^verbatim>\<open>o.flag = false\<close> that follows.
\<close>

definition branch_observed :: state where
  "branch_observed = state_of (run 20 (Cmds [CObserve branch_body]) (branch_state (VNum 1)))"

definition branch_flipped :: state where
  "branch_flipped = state_of (run 20
     (Cmds [CObserve branch_body, CSet (VObj 1) (KStr ''flag'') (VBool False)])
     (branch_state (VNum 1)))"

text \<open>
  A reaction that enumerates the keys of the object of \<open>branch_state\<close> and reads \<^verbatim>\<open>o.a\<close>,
  observed on \<^verbatim>\<open>{flag: true, a: 1}\<close>.
\<close>

definition keys_body :: "cmd list" where
  "keys_body = [CKeys (VObj 1), CGet (VObj 1) (KStr ''a'')]"

definition keys_observed :: state where
  "keys_observed = state_of (run 20 (Cmds [CObserve keys_body]) (branch_state (VNum 1)))"

text \<open>The events of a script run from \<open>keys_observed\<close>, the initial run of the reaction left out.\<close>

definition keys_events :: "cmd list \<Rightarrow> (rid \<times> (optype \<times> key option) option) list option" where
  "keys_events script =
     map_option (\<lambda>evs. drop 1 (map event_kind evs))
       (trace_of (run 20 (Cmds script) keys_observed))"

text \<open>
  The array \<^verbatim>\<open>[1, 2, 3]\<close> at reference 0 with its wrapper at reference 1, observed by a
  reaction that reads \<^verbatim>\<open>arr[0]\<close> and \<^verbatim>\<open>arr.length\<close>.
\<close>

definition arr_state :: state where
  "arr_state = snd (createReactive 0 Array_ctor
     (snd (alloc Array_ctor (Elems [VNum 1, VNum 2, VNum 3]) empty_state)))"

definition arr_body :: "cmd list" where
  "arr_body = [CGet (VObj 1) (KIdx 0), CGet (VObj 1) (KStr ''length'')]"

definition arr_observed :: state where
  "arr_observed = state_of (run 20 (Cmds [CObserve arr_body]) arr_state)"

text \<open>An event with the four fields that describe an array operation.\<close>

definition event_descr ::
  "event \<Rightarrow> rid \<times> (optype \<times> key option \<times> val list option \<times> int option
     \<times> val list option \<times> int option) option" where
  "event_descr ev = (case ev of
      Invoked r a \<Rightarrow> (r, map_option (\<lambda>opn. (op_type opn, op_key opn, op_inserted opn,
          op_insertedStart opn, op_deleted opn, op_deletedStart opn)) a))"

text \<open>
  The events of a script run from \<open>arr_observed\<close>, the initial run of the reaction left out,
  and the elements of the raw array after it.
\<close>

definition arr_events ::
  "cmd list \<Rightarrow> (rid \<times> (optype \<times> key option \<times> val list option \<times> int option
     \<times> val list option \<times> int option) option) list option" where
  "arr_events script =
     map_option (\<lambda>evs. drop 1 (map event_descr evs))
       (trace_of (run 20 (Cmds script) arr_observed))"

definition arr_elems :: "cmd list \<Rightarrow> val list option" where
  "arr_elems script =
     map_option snd (elems_of (state_of (run 20 (Cmds script) arr_observed)) 0)"



text \<open>
  A reaction on the object of \<open>branch_state\<close> that stops itself (it is reaction 0) once
  \<^verbatim>\<open>o.flag\<close> is falsy and then reads \<^verbatim>\<open>o.a\<close>; and the events of a script that follows its
  \<^verbatim>\<open>observe\<close>.
\<close>

definition self_stop_body :: "cmd list" where
  "self_stop_body =
     [CIfGet (VObj 1) (KStr ''flag'') [] [CUnobserve 0], CGet (VObj 1) (KStr ''a'')]"

definition stop_run :: "cmd list \<Rightarrow> cmd list \<Rightarrow> outcome" where
  "stop_run body script = run 20 (Cmds (CObserve body # script)) (branch_state (VNum 1))"

definition stop_events ::
  "cmd list \<Rightarrow> cmd list \<Rightarrow> (rid \<times> (optype \<times> key option) option) list option" where
  "stop_events body script = map_option (map event_kind) (trace_of (stop_run body script))"

section \<open>Properties of the registry\<close>

lemma registry_ok_empty: "registry_ok empty_state"
  by (simp add: registry_ok_def empty_state_def)

lemma registry_ok_alloc: "registry_ok st \<Longrightarrow> registry_ok (snd (alloc c b st))"
  by (auto simp: registry_ok_def alloc_def less_Suc_eq)

lemma registry_ok_createReactive:
  assumes ok: "registry_ok st" and h: "heap st r = Some (Raw c b)"
    and np: "proxyToRaw st r = None" and nr: "rawToProxy st r = None"
  shows "registry_ok (snd (createReactive r c st))"
proof -
  from ok h have r_lt: "r < next_ref st"
    by (metis registry_ok_def not_le option.distinct(1))
  from ok have fresh: "proxyToRaw st (next_ref st) = None" "rawToProxy st (next_ref st) = None"
    unfolding registry_ok_def by (metis less_irrefl not_Some_eq)+
  from ok nr have no_pre: "\<And>p. proxyToRaw st p \<noteq> Some r"
    unfolding registry_ok_def by (metis option.distinct(1))
  from ok have inv: "\<And>x p. rawToProxy st x = Some p \<longleftrightarrow> proxyToRaw st p = Some x"
    and bnd: "\<And>p x. proxyToRaw st p = Some x \<Longrightarrow>
        proxyToRaw st x = None \<and> p < next_ref st \<and> x < next_ref st"
    and hp: "\<And>x. next_ref st \<le> x \<Longrightarrow> heap st x = None"
    unfolding registry_ok_def by blast+
  show ?thesis
    unfolding registry_ok_def createReactive_def Let_def storeObservable_def
    using r_lt fresh no_pre np nr
    by (auto simp: inv less_Suc_eq hp dest: bnd)
qed

lemma registry_ok_reactive:
  "registry_ok st \<Longrightarrow> reactive r st = Some (w, st1) \<Longrightarrow> registry_ok st1"
  unfolding reactive_def
  by (auto split: if_splits option.splits obj.splits
      dest: registry_ok_createReactive [where r = r])

lemma reactive_wrapper: "proxyToRaw st w = Some r \<Longrightarrow> reactive w st = Some (w, st)"
  by (simp add: reactive_def)

lemma reactive_excluded:
  "proxyToRaw st r = None \<Longrightarrow> heap st r = Some (Raw c b) \<Longrightarrow> \<not> shouldInstrument c \<Longrightarrow>
   reactive r st = Some (r, st)"
  by (simp add: reactive_def)

lemma reactive_existing:
  "proxyToRaw st r = None \<Longrightarrow> heap st r = Some (Raw c b) \<Longrightarrow> shouldInstrument c \<Longrightarrow>
   rawToProxy st r = Some p \<Longrightarrow> reactive r st = Some (p, st)"
  by (simp add: reactive_def)

lemma reactive_fresh:
  "proxyToRaw st r = None \<Longrightarrow> heap st r = Some (Raw c b) \<Longrightarrow> shouldInstrument c \<Longrightarrow>
   rawToProxy st r = None \<Longrightarrow> reactive r st = Some (createReactive r c st)"
  by (simp add: reactive_def)

lemma createReactive_fields:
  "fst (createReactive r c st) = next_ref st"
  "proxyToRaw (snd (createReactive r c st)) = (proxyToRaw st)(next_ref st \<mapsto> r)"
  "rawToProxy (snd (createReactive r c st)) = (rawToProxy st)(r \<mapsto> next_ref st)"
  "heap (snd (createReactive r c st)) = (heap st)(next_ref st \<mapsto> Proxy r (getHandlers c))"
  by (simp_all add: createReactive_def Let_def storeObservable_def)

subsection \<open>Example states of the registry\<close>

lemma plain_state_simps:
  "heap plain_state = [0 \<mapsto> Raw Object_ctor (Props [(KStr ''a'', VNum 1)])]"
  "next_ref plain_state = 1" "proxyToRaw plain_state = Map.empty"
  "rawToProxy plain_state = Map.empty"
  by (simp_all add: plain_state_def alloc_def empty_state_def)

lemma date_state_simps:
  "heap date_state = [0 \<mapsto> Raw OtherGlobal_ctor Opaque]"
  "next_ref date_state = 1" "proxyToRaw date_state = Map.empty"
  "rawToProxy date_state = Map.empty"
  by (simp_all add: date_state_def alloc_def empty_state_def)

lemma registry_ok_plain_state: "registry_ok plain_state"
  unfolding plain_state_def by (rule registry_ok_alloc [OF registry_ok_empty])

subsection \<open>C1: wrapping is idempotent and round-trips\<close>

text \<open>
  C1, as the code has it. For every object \<open>r\<close> of the heap that is not a wrapper,
  \<^verbatim>\<open>reactive(r)\<close> returns a value \<open>w\<close> such that \<^verbatim>\<open>reactive(w) === w\<close> and a second
  \<^verbatim>\<open>reactive(r)\<close> returns the same \<open>w\<close> without changing the registry, and wrapping any
  registered wrapper returns it unchanged. When the constructor of \<open>r\<close> passes
  \<^verbatim>\<open>shouldInstrument\<close>, \<open>w\<close> is a Proxy different from \<open>r\<close> and \<^verbatim>\<open>raw(w) === r\<close>. When it does
  not (a built-in global type outside the \<^verbatim>\<open>handlers\<close> table), \<open>w\<close> is \<open>r\<close> itself and
  \<^verbatim>\<open>raw(w)\<close> is undefined.
\<close>

theorem C1_wrap_idempotent_roundtrip:
  assumes ok: "registry_ok st" and h: "heap st r = Some (Raw c b)"
    and np: "proxyToRaw st r = None"
  shows "\<exists>w st1. reactive r st = Some (w, st1) \<and> reactive w st1 = Some (w, st1) \<and>
     reactive r st1 = Some (w, st1) \<and> registry_ok st1 \<and>
     (\<forall>p t. proxyToRaw st1 p = Some t \<longrightarrow> reactive p st1 = Some (p, st1)) \<and>
     (shouldInstrument c \<longrightarrow> w \<noteq> r \<and> raw st1 (VObj w) = VObj r) \<and>
     (\<not> shouldInstrument c \<longrightarrow> w = r \<and> raw st1 (VObj w) = VUndef)"
proof (cases "shouldInstrument c")
  case False
  with h np ok show ?thesis
    by (simp add: reactive_excluded reactive_wrapper raw_def)
next
  case True
  show ?thesis
  proof (cases "rawToProxy st r")
    case (Some p)
    with ok have pr: "proxyToRaw st p = Some r" by (simp add: registry_ok_def)
    with np have "p \<noteq> r" by auto
    with Some pr h np True ok show ?thesis
      by (simp add: reactive_existing reactive_wrapper raw_def)
  next
    case None
    obtain w st1 where cr: "createReactive r c st = (w, st1)"
      by (cases "createReactive r c st")
    from ok h have r_lt: "r < next_ref st"
      by (metis registry_ok_def not_le option.distinct(1))
    from cr have w: "w = next_ref st" and p1: "proxyToRaw st1 = (proxyToRaw st)(w \<mapsto> r)"
      and r1: "rawToProxy st1 = (rawToProxy st)(r \<mapsto> w)"
      and h1: "heap st1 = (heap st)(w \<mapsto> Proxy r (getHandlers c))"
      using createReactive_fields [of r c st] by simp_all
    from w r_lt have ne: "w \<noteq> r" by simp
    have a: "reactive r st = Some (w, st1)"
      using reactive_fresh [OF np h True None] cr by simp
    have b: "reactive w st1 = Some (w, st1)"
      by (rule reactive_wrapper [where r = r]) (simp add: p1)
    have c: "reactive r st1 = Some (w, st1)"
      by (rule reactive_existing [where c = c and b = b])
        (use ne np h True in \<open>simp_all add: p1 h1 r1\<close>)
    have d: "raw st1 (VObj w) = VObj r" by (simp add: raw_def p1)
    have e: "registry_ok st1"
      using registry_ok_createReactive [OF ok h np None] cr by simp
    have f: "\<forall>p t. proxyToRaw st1 p = Some t \<longrightarrow> reactive p st1 = Some (p, st1)"
      by (simp add: reactive_wrapper)
    from a b c d e f ne True show ?thesis by simp
  qed
qed

theorem C1_wrap_idempotent_roundtrip_witness:
  "registry_ok plain_state \<and>
   heap plain_state 0 = Some (Raw Object_ctor (Props [(KStr ''a'', VNum 1)])) \<and>
   proxyToRaw plain_state 0 = None \<and> shouldInstrument Object_ctor \<and>
   (\<exists>w st1. reactive 0 plain_state = Some (w, st1) \<and> reactive w st1 = Some (w, st1) \<and>
      reactive 0 st1 = Some (w, st1) \<and> w \<noteq> 0 \<and> raw st1 (VObj w) = VObj 0)"
proof -
  have h: "heap plain_state 0 = Some (Raw Object_ctor (Props [(KStr ''a'', VNum 1)]))"
    and np: "proxyToRaw plain_state 0 = None"
    by (simp_all add: plain_state_simps)
  have si: "shouldInstrument Object_ctor"
    by (simp add: shouldInstrument_def handlers_def)
  from C1_wrap_idempotent_roundtrip [OF registry_ok_plain_state h np] si h np
    registry_ok_plain_state
  show ?thesis by blast
qed

text \<open>
  The round trip of C1 as the claim words it (every raw object) fails for an object whose
  constructor is a built-in global outside the \<^verbatim>\<open>handlers\<close> table, such as a Date:
  \<^verbatim>\<open>reactive\<close> hands the object back and \<^verbatim>\<open>raw\<close> of it is undefined.
\<close>

theorem C1_roundtrip_counterexample:
  "reactive 0 date_state = Some (0, date_state) \<and> raw date_state (VObj 0) = VUndef \<and>
   raw date_state (VObj 0) \<noteq> VObj 0"
  by (simp add: reactive_def raw_def date_state_simps shouldInstrument_def isBuiltIn_def
      handlers_def)

subsection \<open>C2: what raw returns\<close>

text \<open>
  C2, as the code has it: \<^verbatim>\<open>raw\<close> is a lookup in \<^verbatim>\<open>proxyToRaw\<close>. For a value that is not a
  registered wrapper it returns undefined (not the input), and for the wrapper \<open>w\<close> that the
  registry stores for the raw object \<open>r\<close> it returns \<open>r\<close>.
\<close>

theorem C2_raw_lookup:
  assumes ok: "registry_ok st"
  shows "((\<forall>p. v = VObj p \<longrightarrow> proxyToRaw st p = None) \<longrightarrow> raw st v = VUndef) \<and>
     (rawToProxy st r = Some w \<longrightarrow> raw st (VObj w) = VObj r)"
  using ok by (auto simp: raw_def registry_ok_def split: val.splits option.splits)

theorem C2_raw_lookup_witness:
  "registry_ok wrapped_state \<and> proxyToRaw wrapped_state 0 = None \<and>
   raw wrapped_state (VObj 0) = VUndef \<and> rawToProxy wrapped_state 0 = Some 1 \<and>
   raw wrapped_state (VObj 1) = VObj 0"
proof -
  have ok: "registry_ok wrapped_state"
    unfolding wrapped_state_def
    by (rule registry_ok_createReactive [OF registry_ok_plain_state])
      (simp_all add: plain_state_simps)
  have a: "proxyToRaw wrapped_state 0 = None" and b: "rawToProxy wrapped_state 0 = Some 1"
    by (simp_all add: wrapped_state_def createReactive_fields plain_state_simps)
  from a have c: "\<forall>p. VObj 0 = VObj p \<longrightarrow> proxyToRaw wrapped_state p = None" by simp
  from C2_raw_lookup [OF ok, of "VObj 0" 0 1] a b c ok show ?thesis by simp
qed

text \<open>
  C2 as the claim words it (a value that was never wrapped is returned unchanged) fails:
  for the plain object at reference 0 of \<open>plain_state\<close>, which no one wrapped, \<^verbatim>\<open>raw\<close>
  answers undefined.
\<close>

theorem C2_raw_unwrapped_counterexample:
  "proxyToRaw plain_state 0 = None \<and> raw plain_state (VObj 0) = VUndef \<and>
   raw plain_state (VObj 0) \<noteq> VObj 0"
  by (simp add: raw_def plain_state_simps)

section \<open>Every handler is a sequence of steps\<close>

lemma res_all_simps [simp]:
  "res_all P (Return x st) = P st" "res_all P (Throw e st) = P st" "res_all P Unmodelled = True"
  by (simp_all add: res_all_def)

lemma trap_all_simps [simp]:
  "trap_all P (Yields st f) = P st" "trap_all P (Throws e st) = P st" "trap_all P NotModelled = True"
  by (simp_all add: trap_all_def)

lemma elems_of_SomeD: "elems_of st t = Some (c, xs) \<Longrightarrow> heap st t = Some (Raw c (Elems xs))"
  by (simp add: elems_of_def split: option.splits obj.splits content.splits)

lemma props_of_SomeD: "props_of st t = Some (c, ps) \<Longrightarrow> heap st t = Some (Raw c (Props ps))"
  by (simp add: props_of_def split: option.splits obj.splits content.splits)

lemma steps_refl [simp, intro]: "steps st st"
  by (simp add: steps_def)

lemma steps_trans: "steps a b \<Longrightarrow> steps b c \<Longrightarrow> steps a c"
  by (simp add: steps_def)

lemma steps_prim: "prim a b \<Longrightarrow> steps a b"
  by (simp add: steps_def)

lemma steps_register: "registerRunningReaction opn st = Some st1 \<Longrightarrow> steps st st1"
  by (rule steps_prim [OF p_register])

lemma steps_reactive: "reactive r st = Some (p, st1) \<Longrightarrow> steps st st1"
  by (rule steps_prim [OF p_reactive])

lemma steps_write: "heap st t = Some (Raw c b0) \<Longrightarrow> steps st (put_content t c b st)"
  by (rule steps_prim [OF p_write])

lemma steps_write_elems: "elems_of st t = Some (c, xs) \<Longrightarrow> steps st (put_content t c b st)"
  by (rule steps_write [OF elems_of_SomeD])

lemma steps_write_props: "props_of st t = Some (c, ps) \<Longrightarrow> steps st (put_content t c b st)"
  by (rule steps_write [OF props_of_SomeD])

lemma steps_wrap_nested: "wrap_nested v st = Some (x, st1) \<Longrightarrow> steps st st1"
  by (auto simp: wrap_nested_def dest: steps_reactive split: val.splits option.splits)

lemma steps_findReactive: "findReactive v st = Some (x, st1) \<Longrightarrow> steps st st1"
  by (auto simp: findReactive_def dest: steps_reactive split: val.splits option.splits if_splits)

lemma steps_baseHandlers_get: "res_all (steps st) (baseHandlers_get t k p st)"
  unfolding baseHandlers_get_def Let_def
  by (auto dest!: steps_register steps_wrap_nested elim: steps_trans
      split: option.splits)

lemma steps_baseHandlers_ownKeys: "res_all (steps st) (baseHandlers_ownKeys t st)"
  unfolding baseHandlers_ownKeys_def
  by (auto dest!: steps_register split: option.splits)

lemma steps_baseHandlers_set: "baseHandlers_set t k v p st = Some (st1, q) \<Longrightarrow> steps st st1"
  unfolding baseHandlers_set_def Let_def
  by (auto intro: steps_write_props split: option.splits if_splits)

lemma steps_baseHandlers_deleteProperty:
  "baseHandlers_deleteProperty t k st = Some (st1, q) \<Longrightarrow> steps st st1"
  unfolding baseHandlers_deleteProperty_def Let_def
  by (auto intro: steps_write_props split: option.splits if_splits)

lemma steps_arrayHandlers_get: "res_all (steps st) (arrayHandlers_get t k p st)"
  unfolding arrayHandlers_get_def Let_def
  by (auto dest!: steps_register split: option.splits)

lemma steps_array_wrapper_call: "res_all (steps st) (array_wrapper_call t p k f args st)"
  unfolding array_wrapper_call_def
  by (cases f) (auto intro: steps_write_elems split: option.splits)

lemma steps_array_default_set: "array_default_set t k v st = Some st1 \<Longrightarrow> steps st st1"
  unfolding array_default_set_def
  by (cases k) (auto intro: steps_write_elems split: option.splits)

lemma steps_map_instrumentation:
  "heap st t = Some (Raw c (Entries es)) \<Longrightarrow>
   res_all (steps st) (map_instrumentation m t c es args st)"
  unfolding map_instrumentation_def Let_def
  by (cases m)
    (auto dest!: steps_register steps_findReactive elim: steps_trans intro: steps_write
      split: option.splits)

lemma steps_set_instrumentation:
  "heap st t = Some (Raw c (Members ms)) \<Longrightarrow>
   res_all (steps st) (set_instrumentation m t c ms args st)"
  unfolding set_instrumentation_def Let_def
  by (cases m) (auto dest!: steps_register intro: steps_write split: option.splits)

lemma steps_instrumentations_call: "res_all (steps st) (instrumentations_call m p args st)"
  unfolding instrumentations_call_def
  by (auto intro: steps_map_instrumentation steps_set_instrumentation
      split: option.splits obj.splits content.splits)

lemma steps_instrumentations_size: "res_all (steps st) (instrumentations_size p st)"
  unfolding instrumentations_size_def
  by (auto dest!: steps_register split: option.splits obj.splits content.splits)

lemma steps_unobserve: "unobserve r st = Some st1 \<Longrightarrow> steps st st1"
  by (rule steps_prim [OF p_unobserve])

lemma steps_new_reaction: "new_reaction body st = (r, st1) \<Longrightarrow> steps st st1"
  by (rule steps_prim [OF p_new])

lemma trap_all_queue_opt [simp]: "trap_all P (queue_opt q st) = P st"
  by (simp add: queue_opt_def queueReactionsForOperation_def split: option.splits)

lemma res_allD:
  "res_all P res \<Longrightarrow> res = Return x st1 \<Longrightarrow> P st1"
  "res_all P res \<Longrightarrow> res = Throw e st1 \<Longrightarrow> P st1"
  by auto

lemma steps_read_prop: "res_all (steps st) (read_prop v k st)"
proof (cases v)
  case (VObj p)
  show ?thesis
  proof (cases "heap st p")
    case None
    with VObj show ?thesis by (simp add: read_prop_def)
  next
    case (Some ob)
    show ?thesis
    proof (cases ob)
      case (Raw c b)
      with VObj Some show ?thesis
        by (cases b) (simp_all add: read_prop_def split: option.splits)
    next
      case (Proxy t h)
      show ?thesis
      proof (cases h)
        case BaseHandlers
        with VObj Some Proxy show ?thesis
          by (simp add: read_prop_def steps_baseHandlers_get)
      next
        case ArrayHandlers
        with VObj Some Proxy steps_arrayHandlers_get [of st t k p] show ?thesis
          by (auto simp: read_prop_def split: result.splits getres.splits)
      next
        case CollectionHandlers
        with VObj Some Proxy show ?thesis
          by (simp add: read_prop_def steps_instrumentations_size)
      qed
    qed
  qed
qed (simp_all add: read_prop_def)

lemma steps_trap_get: "trap_all (steps st) (trap_get v k cont st)"
  using steps_read_prop [of st v k]
  by (auto simp: trap_get_def split: result.splits)

lemma heap_cases [case_names Dangling Base Array Coll Plain Elems Entries Members Opaque]:
  obtains "heap st p = None"
  | t where "heap st p = Some (Proxy t BaseHandlers)"
  | t where "heap st p = Some (Proxy t ArrayHandlers)"
  | t where "heap st p = Some (Proxy t CollectionHandlers)"
  | c ps where "heap st p = Some (Raw c (Props ps))"
  | c xs where "heap st p = Some (Raw c (Elems xs))"
  | c es where "heap st p = Some (Raw c (Entries es))"
  | c ms where "heap st p = Some (Raw c (Members ms))"
  | c where "heap st p = Some (Raw c Opaque)"
proof (cases "heap st p")
  case None
  then show ?thesis using that by blast
next
  case (Some ob)
  show ?thesis
  proof (cases ob)
    case (Raw c b)
    with Some show ?thesis using that by (cases b) blast+
  next
    case (Proxy t h)
    with Some show ?thesis using that by (cases h) blast+
  qed
qed

lemma steps_trap_set: "trap_all (steps st) (trap_set v k x st)"
proof (cases v)
  case (VObj p)
  show ?thesis
  proof (cases st p rule: heap_cases)
    case (Base t)
    with VObj show ?thesis
      by (auto simp: trap_set_def dest: steps_baseHandlers_set split: option.splits)
  next
    case (Array t)
    with VObj show ?thesis
      by (auto simp: trap_set_def dest: steps_array_default_set split: option.splits)
  next
    case (Plain c ps)
    with VObj show ?thesis
      by (auto simp: trap_set_def intro: steps_write)
  next
    case (Elems c xs)
    with VObj show ?thesis
      by (auto simp: trap_set_def dest: steps_array_default_set split: option.splits)
  qed (simp_all add: VObj trap_set_def)
qed (simp_all add: trap_set_def)

lemma steps_trap_delete: "trap_all (steps st) (trap_delete v k st)"
proof (cases v)
  case (VObj p)
  show ?thesis
  proof (cases st p rule: heap_cases)
    case (Base t)
    with VObj show ?thesis
      by (auto simp: trap_delete_def dest: steps_baseHandlers_deleteProperty
          split: option.splits)
  next
    case (Plain c ps)
    with VObj show ?thesis
      by (auto simp: trap_delete_def intro: steps_write)
  qed (simp_all add: VObj trap_delete_def)
qed (simp_all add: trap_delete_def)

lemma steps_trap_keys: "trap_all (steps st) (trap_keys v st)"
proof (cases v)
  case (VObj p)
  show ?thesis
  proof (cases st p rule: heap_cases)
    case (Base t)
    with VObj steps_baseHandlers_ownKeys [of st t] show ?thesis
      by (auto simp: trap_keys_def split: result.splits)
  qed (simp_all add: VObj trap_keys_def)
qed (simp_all add: trap_keys_def)

lemma steps_trap_method: "trap_all (steps st) (trap_method v k args st)"
proof (cases v)
  case (VObj p)
  show ?thesis
  proof (cases st p rule: heap_cases)
    case (Array t)
    show ?thesis
    proof (cases "arrayHandlers_get t k p st")
      case (Return g st1)
      with steps_arrayHandlers_get [of st t k p] have s1: "steps st st1" by simp
      show ?thesis
      proof (cases g)
        case (Plain x)
        with VObj Array Return s1 show ?thesis by (simp add: trap_method_def)
      next
        case (Wrapped k' f)
        with VObj Array Return s1 steps_array_wrapper_call [of st1 t p k' f args]
        show ?thesis
          by (auto simp: trap_method_def elim: steps_trans split: result.splits)
      qed
    next
      case (Throw e st1)
      with steps_arrayHandlers_get [of st t k p] VObj Array show ?thesis
        by (simp add: trap_method_def)
    next
      case Unmodelled
      with VObj Array show ?thesis by (simp add: trap_method_def)
    qed
  next
    case (Coll t)
    show ?thesis
    proof (cases k)
      case (KStr name)
      show ?thesis
      proof (cases "instrumented name")
        case None
        with VObj Coll KStr show ?thesis by (simp add: trap_method_def)
      next
        case (Some m)
        with VObj Coll KStr steps_instrumentations_call [of st m p args] show ?thesis
          by (auto simp: trap_method_def split: result.splits)
      qed
    qed (simp_all add: VObj Coll trap_method_def)
  next
    case (Elems c xs)
    with VObj show ?thesis
      by (auto simp: trap_method_def intro: steps_write split: val.splits option.splits)
  qed (simp_all add: VObj trap_method_def)
qed (simp_all add: trap_method_def)

lemma steps_trap: "trap_all (steps st) (trap c st)"
proof (cases c)
  case (CReactive v)
  then show ?thesis
    by (auto dest: steps_reactive split: val.splits option.splits)
next
  case (CObserve body)
  then show ?thesis
    by (auto dest: steps_new_reaction split: prod.splits)
next
  case (CUnobserve r)
  then show ?thesis
    by (auto dest: steps_unobserve split: option.splits)
qed (simp_all add: steps_trap_get steps_trap_set steps_trap_delete steps_trap_keys
    steps_trap_method)

section \<open>Invariants of every run\<close>

lemma out_all_simps [simp]:
  "out_all P (Done st) = P st" "out_all P (Raised e st) = P st"
  "out_all P OutOfFuel = True" "out_all P Stuck = True"
  by (simp_all add: out_all_def)

lemma steps_invariant:
  assumes "steps st st1" and "P st" and "\<And>a b. P a \<Longrightarrow> prim a b \<Longrightarrow> P b"
  shows "P st1"
  using assms unfolding steps_def by (induction rule: rtranclp_induct) auto

lemma run_Cmds_Cons:
  "run (Suc n) (Cmds (c # cs)) st = (case trap c st of
      NotModelled \<Rightarrow> Stuck
    | Throws e st1 \<Rightarrow> Raised e st1
    | Yields st1 follow \<Rightarrow> (case run n follow st1 of
          Done st2 \<Rightarrow> run n (Cmds cs) st2
        | Raised e st2 \<Rightarrow> Raised e st2
        | OutOfFuel \<Rightarrow> OutOfFuel
        | Stuck \<Rightarrow> Stuck))"
  by (simp split: trapres.splits outcome.splits)

lemma run_Queue_Cons:
  "run (Suc n) (Queue (r # rs) opn) st = (case run n (Call r (Some opn)) st of
      Done st1 \<Rightarrow> run n (Queue rs opn) st1
    | Raised e st1 \<Rightarrow> Raised e st1
    | OutOfFuel \<Rightarrow> OutOfFuel
    | Stuck \<Rightarrow> Stuck)"
  by (simp split: outcome.splits)

lemma run_invariant:
  assumes prim: "\<And>a b. P a \<Longrightarrow> prim a b \<Longrightarrow> P b"
    and enter: "\<And>s r re a. P s \<Longrightarrow> reactions s r = Some re \<Longrightarrow> \<not> unobserved re \<Longrightarrow>
        \<not> isRunning r s \<Longrightarrow> P (log_invoked r a (stack_push r (releaseReaction r s)))"
    and leave: "\<And>s. P s \<Longrightarrow> P (stack_pop s)"
    and log: "\<And>s r a. P s \<Longrightarrow> P (log_invoked r a s)"
  shows "P st \<Longrightarrow> out_all P (run n t st)"
proof (induction n arbitrary: t st)
  case 0
  show ?case by simp
next
  case (Suc n)
  show ?case
  proof (cases t)
    case (Cmds cs)
    show ?thesis
    proof (cases cs)
      case Nil
      with Cmds Suc.prems show ?thesis by simp
    next
      case (Cons c cs')
      have tr: "trap_all (steps st) (trap c st)" by (rule steps_trap)
      show ?thesis
      proof (cases "trap c st")
        case NotModelled
        with Cmds Cons show ?thesis by simp
      next
        case (Throws e st1)
        with tr have "steps st st1" by simp
        then have "P st1" using Suc.prems prim by (rule steps_invariant)
        with Cmds Cons Throws show ?thesis by simp
      next
        case (Yields st1 f)
        with tr have "steps st st1" by simp
        then have p1: "P st1" using Suc.prems prim by (rule steps_invariant)
        from Suc.IH [OF p1, of f] have ih: "out_all P (run n f st1)" .
        show ?thesis
        proof (cases "run n f st1")
          case (Done st2)
          with ih have "P st2" by simp
          from Suc.IH [OF this, of "Cmds cs'"] Cmds Cons Yields Done show ?thesis
            by (simp del: run.simps add: run_Cmds_Cons)
        qed (use ih Cmds Cons Yields in \<open>simp_all del: run.simps add: run_Cmds_Cons\<close>)
      qed
    qed
  next
    case (Queue rs opn)
    show ?thesis
    proof (cases rs)
      case Nil
      with Queue Suc.prems show ?thesis by simp
    next
      case (Cons r rs')
      from Suc.IH [OF Suc.prems, of "Call r (Some opn)"]
      have ih: "out_all P (run n (Call r (Some opn)) st)" .
      show ?thesis
      proof (cases "run n (Call r (Some opn)) st")
        case (Done st1)
        with ih have "P st1" by simp
        from Suc.IH [OF this, of "Queue rs' opn"] Queue Cons Done show ?thesis
          by (simp del: run.simps add: run_Queue_Cons)
      qed (use ih Queue Cons in \<open>simp_all del: run.simps add: run_Queue_Cons\<close>)
    qed
  next
    case (Call r a)
    show ?thesis
    proof (cases "reactions st r")
      case None
      with Call show ?thesis by simp
    next
      case (Some re)
      show ?thesis
      proof (cases "unobserved re")
        case True
        from Suc.IH [OF log [OF Suc.prems], of "Cmds (fn re)" r a] Call Some True
        show ?thesis by simp
      next
        case False
        show ?thesis
        proof (cases "isRunning r st")
          case True
          with Call Some False Suc.prems show ?thesis by simp
        next
          case nr: False
          let ?s = "log_invoked r a (stack_push r (releaseReaction r st))"
          have "P ?s" using Suc.prems Some False nr by (rule enter)
          from Suc.IH [OF this, of "Cmds (fn re)"]
          have ih: "out_all P (run n (Cmds (fn re)) ?s)" .
          show ?thesis
            using ih Call Some False nr leave
            by (cases "run n (Cmds (fn re)) ?s") simp_all
        qed
      qed
    qed
  qed
qed

lemma prim_stack: "prim a b \<Longrightarrow> reactionStack b = reactionStack a"
proof (induction rule: prim.induct)
  case (p_register opn st st1)
  then show ?case
    by (auto simp: registerRunningReaction_def registerReactionForOperation_def Let_def
        push_cleaner_def split: option.splits if_splits)
next
  case (p_reactive r st p st1)
  then show ?case
    by (auto simp: reactive_def createReactive_def Let_def storeObservable_def
        split: option.splits if_splits obj.splits)
next
  case (p_write st t c b0 b)
  show ?case by (simp add: put_content_def)
next
  case (p_unobserve r st st1)
  then show ?case
    by (auto simp: unobserve_def releaseReaction_def split: option.splits if_splits)
next
  case (p_new body st r st1)
  then show ?case by (auto simp: new_reaction_def)
qed

lemma steps_stack: "steps a b \<Longrightarrow> reactionStack b = reactionStack a"
  unfolding steps_def by (induction rule: rtranclp_induct) (auto dest: prim_stack)

lemma stack_release [simp]: "reactionStack (releaseReaction r st) = reactionStack st"
  by (simp add: releaseReaction_def split: option.splits)

lemma stack_stack_push [simp]: "reactionStack (stack_push r st) = reactionStack st @ [r]"
  by (simp add: stack_push_def)

lemma stack_pop_eq: "reactionStack s = xs @ [r] \<Longrightarrow> reactionStack (stack_pop s) = xs"
  by (simp add: stack_pop_def)

lemma stack_log [simp]: "reactionStack (log_invoked r a st) = reactionStack st"
  by (simp add: log_invoked_def)

lemma run_stack: "out_all (\<lambda>s. reactionStack s = reactionStack st) (run n t st)"
proof (induction n arbitrary: t st)
  case 0
  show ?case by simp
next
  case (Suc n)
  show ?case
  proof (cases t)
    case (Cmds cs)
    show ?thesis
    proof (cases cs)
      case Nil
      with Cmds show ?thesis by simp
    next
      case (Cons c cs')
      have tr: "trap_all (steps st) (trap c st)" by (rule steps_trap)
      show ?thesis
      proof (cases "trap c st")
        case NotModelled
        with Cmds Cons show ?thesis by simp
      next
        case (Throws e st1)
        with tr have "steps st st1" by simp
        then have "reactionStack st1 = reactionStack st" by (rule steps_stack)
        with Cmds Cons Throws show ?thesis by simp
      next
        case (Yields st1 f)
        with tr have "steps st st1" by simp
        then have p1: "reactionStack st1 = reactionStack st" by (rule steps_stack)
        from Suc.IH [of st1 f] p1
        have ih: "out_all (\<lambda>s. reactionStack s = reactionStack st) (run n f st1)" by simp
        show ?thesis
        proof (cases "run n f st1")
          case (Done st2)
          with ih have "reactionStack st2 = reactionStack st" by simp
          with Suc.IH [of st2 "Cmds cs'"] Cmds Cons Yields Done show ?thesis
            by (simp del: run.simps add: run_Cmds_Cons)
        qed (use ih Cmds Cons Yields in \<open>simp_all del: run.simps add: run_Cmds_Cons\<close>)
      qed
    qed
  next
    case (Queue rs opn)
    show ?thesis
    proof (cases rs)
      case Nil
      with Queue show ?thesis by simp
    next
      case (Cons r rs')
      from Suc.IH [of st "Call r (Some opn)"]
      have ih: "out_all (\<lambda>s. reactionStack s = reactionStack st) (run n (Call r (Some opn)) st)" .
      show ?thesis
      proof (cases "run n (Call r (Some opn)) st")
        case (Done st1)
        with ih have "reactionStack st1 = reactionStack st" by simp
        with Suc.IH [of st1 "Queue rs' opn"] Queue Cons Done show ?thesis
          by (simp del: run.simps add: run_Queue_Cons)
      qed (use ih Queue Cons in \<open>simp_all del: run.simps add: run_Queue_Cons\<close>)
    qed
  next
    case (Call r a)
    show ?thesis
    proof (cases "reactions st r")
      case None
      with Call show ?thesis by simp
    next
      case (Some re)
      show ?thesis
      proof (cases "unobserved re")
        case True
        from Suc.IH [of "log_invoked r a st" "Cmds (fn re)"] Call Some True
        show ?thesis by simp
      next
        case False
        show ?thesis
        proof (cases "isRunning r st")
          case True
          with Call Some False show ?thesis by simp
        next
          case nr: False
          let ?s = "log_invoked r a (stack_push r (releaseReaction r st))"
          from Suc.IH [of ?s "Cmds (fn re)"]
          have ih: "out_all (\<lambda>s. reactionStack s = reactionStack st @ [r])
              (run n (Cmds (fn re)) ?s)" by simp
          show ?thesis
            using ih Call Some False nr
            by (cases "run n (Cmds (fn re)) ?s") (simp_all add: stack_pop_eq)
        qed
      qed
    qed
  qed
qed

lemma members_simps:
  "members (st\<lparr> sets := m \<rparr>) s = (case m s of Some xs \<Rightarrow> xs | None \<Rightarrow> [])"
  by (simp add: members_def)

lemma fold_set_delete:
  "fold (set_delete r) ss m s =
     (if s \<in> set ss then map_option (removeAll r) (m s) else m s)"
proof (induction ss arbitrary: m)
  case Nil
  show ?case by simp
next
  case (Cons a ss)
  show ?case
    by (simp add: Cons.IH) (auto simp: set_delete_def split: option.splits)
qed

lemma members_release:
  "reactions st r = Some re \<Longrightarrow>
   members (releaseReaction r st) s =
     (if s \<in> set (cleaners re) then removeAll r (members st s) else members st s)"
  by (auto simp: releaseReaction_def members_def fold_set_delete split: option.splits)

lemma reactions_release:
  "reactions st r = Some re \<Longrightarrow>
   reactions (releaseReaction r st) = (reactions st)(r \<mapsto> re\<lparr> cleaners := [] \<rparr>)"
  by (simp add: releaseReaction_def)

lemma release_other [simp]:
  "next_rid (releaseReaction r st) = next_rid st"
  "heap (releaseReaction r st) = heap st"
  "trace (releaseReaction r st) = trace st"
  "proxyToRaw (releaseReaction r st) = proxyToRaw st"
  "rawToProxy (releaseReaction r st) = rawToProxy st"
  "next_ref (releaseReaction r st) = next_ref st"
  "connectionStore (releaseReaction r st) = connectionStore st"
  by (simp_all add: releaseReaction_def split: option.splits)

lemma deps_okD1:
  "deps_ok st \<Longrightarrow> r \<in> set (members st s) \<Longrightarrow>
   \<exists>re. reactions st r = Some re \<and> s \<in> set (cleaners re)"
  by (simp add: deps_ok_def)

lemma deps_okD2: "deps_ok st \<Longrightarrow> r \<in> set (reactionStack st) \<Longrightarrow> \<exists>re. reactions st r = Some re"
  by (auto simp: deps_ok_def)

lemma deps_okD3: "deps_ok st \<Longrightarrow> next_rid st \<le> r \<Longrightarrow> reactions st r = None"
  by (simp add: deps_ok_def)

lemma deps_okI:
  assumes "\<And>s r. r \<in> set (members st s) \<Longrightarrow>
      \<exists>re. reactions st r = Some re \<and> s \<in> set (cleaners re)"
    and "\<And>r. r \<in> set (reactionStack st) \<Longrightarrow> \<exists>re. reactions st r = Some re"
    and "\<And>r. next_rid st \<le> r \<Longrightarrow> reactions st r = None"
  shows "deps_ok st"
  using assms by (auto simp: deps_ok_def)

lemma deps_ok_release: "deps_ok st \<Longrightarrow> deps_ok (releaseReaction r st)"
proof (cases "reactions st r")
  case None
  then show "deps_ok st \<Longrightarrow> ?thesis" by (simp add: releaseReaction_def)
next
  case (Some re)
  assume ok: "deps_ok st"
  show ?thesis
  proof (rule deps_okI)
    fix s x assume "x \<in> set (members (releaseReaction r st) s)"
    with Some have x: "x \<in> set (members st s)" and ne: "s \<in> set (cleaners re) \<longrightarrow> x \<noteq> r"
      by (auto simp: members_release split: if_splits)
    from deps_okD1 [OF ok x] obtain rx where rx: "reactions st x = Some rx" "s \<in> set (cleaners rx)"
      by blast
    with Some ne have "x \<noteq> r" by auto
    with rx Some show "\<exists>re. reactions (releaseReaction r st) x = Some re \<and> s \<in> set (cleaners re)"
      by (simp add: reactions_release)
  next
    fix x assume "x \<in> set (reactionStack (releaseReaction r st))"
    then have "x \<in> set (reactionStack st)" by simp
    from deps_okD2 [OF ok this] Some
    show "\<exists>re. reactions (releaseReaction r st) x = Some re"
      by (auto simp: reactions_release)
  next
    fix x assume "next_rid (releaseReaction r st) \<le> x"
    then have "reactions st x = None" using ok by (simp add: deps_okD3)
    with Some show "reactions (releaseReaction r st) x = None"
      by (auto simp: reactions_release)
  qed
qed

lemma release_clears:
  assumes "deps_ok st"
  shows "r \<notin> set (members (releaseReaction r st) s)"
proof (cases "reactions st r")
  case None
  with assms show ?thesis by (auto simp: releaseReaction_def dest: deps_okD1)
next
  case (Some re)
  with assms show ?thesis
    by (auto simp: members_release dest: deps_okD1)
qed

text \<open>Adding the reaction r to the Set s and s to the cleaners of r.\<close>

lemma deps_ok_join:
  assumes ok: "deps_ok st" and re: "reactions st r = Some re"
  shows "deps_ok (push_cleaner r s (st\<lparr> sets := (sets st)(s \<mapsto> members st s @ [r]) \<rparr>))"
proof (rule deps_okI)
  let ?st1 = "push_cleaner r s (st\<lparr> sets := (sets st)(s \<mapsto> members st s @ [r]) \<rparr>)"
  have rs: "reactions ?st1 = (reactions st)(r \<mapsto> re\<lparr> cleaners := cleaners re @ [s] \<rparr>)"
    using re by (simp add: push_cleaner_def)
  have ms: "\<And>s'. members ?st1 s' = (if s' = s then members st s @ [r] else members st s')"
    using re by (simp add: push_cleaner_def members_def)
  {
    fix s' x assume "x \<in> set (members ?st1 s')"
    then have "x \<in> set (members st s') \<or> (x = r \<and> s' = s)"
      by (auto simp: ms split: if_splits)
    then show "\<exists>re. reactions ?st1 x = Some re \<and> s' \<in> set (cleaners re)"
    proof
      assume "x \<in> set (members st s')"
      from deps_okD1 [OF ok this] re show ?thesis by (auto simp: rs)
    next
      assume "x = r \<and> s' = s"
      then show ?thesis by (simp add: rs)
    qed
  next
    fix x assume "x \<in> set (reactionStack ?st1)"
    then have "x \<in> set (reactionStack st)" using re by (simp add: push_cleaner_def)
    from deps_okD2 [OF ok this] show "\<exists>re. reactions ?st1 x = Some re" by (auto simp: rs)
  next
    fix x assume "next_rid ?st1 \<le> x"
    then have "next_rid st \<le> x" using re by (simp add: push_cleaner_def)
    from deps_okD3 [OF ok this] re show "reactions ?st1 x = None" by (auto simp: rs)
  }
qed

text \<open>Creating an empty Set for a key.\<close>

lemma deps_ok_new_set:
  assumes ok: "deps_ok st"
  shows "deps_ok (st\<lparr> sets := (sets st)(s \<mapsto> []), next_sid := n, connectionStore := cs \<rparr>)"
proof (rule deps_okI)
  let ?st1 = "st\<lparr> sets := (sets st)(s \<mapsto> []), next_sid := n, connectionStore := cs \<rparr>"
  fix s' x assume "x \<in> set (members ?st1 s')"
  then have "x \<in> set (members st s')" by (auto simp: members_def split: if_splits)
  from deps_okD1 [OF ok this]
  show "\<exists>re. reactions ?st1 x = Some re \<and> s' \<in> set (cleaners re)" by simp
next
  fix x assume "x \<in> set (reactionStack (st\<lparr> sets := (sets st)(s \<mapsto> []), next_sid := n, connectionStore := cs \<rparr>))"
  then show "\<exists>re. reactions (st\<lparr> sets := (sets st)(s \<mapsto> []), next_sid := n, connectionStore := cs \<rparr>) x = Some re"
    using deps_okD2 [OF ok] by simp
next
  fix x assume "next_rid (st\<lparr> sets := (sets st)(s \<mapsto> []), next_sid := n, connectionStore := cs \<rparr>) \<le> x"
  then show "reactions (st\<lparr> sets := (sets st)(s \<mapsto> []), next_sid := n, connectionStore := cs \<rparr>) x = None"
    using deps_okD3 [OF ok] by simp
qed

lemma deps_ok_register:
  assumes ok: "deps_ok st" and re: "reactions st r = Some re"
    and reg: "registerReactionForOperation r opn st = Some st1"
  shows "deps_ok st1"
proof -
  define k where "k = (if op_type opn = OIterate then KSym ITERATION_KEY else store_key (op_key opn))"
  from reg obtain m where m: "connectionStore st (op_target opn) = Some m"
    by (auto simp: registerReactionForOperation_def Let_def split: option.splits)
  show ?thesis
  proof (cases "m k")
    case (Some s)
    with reg m have "st1 = st \<or>
        st1 = push_cleaner r s (st\<lparr> sets := (sets st)(s \<mapsto> members st s @ [r]) \<rparr>)"
      by (auto simp: registerReactionForOperation_def k_def Let_def split: if_splits)
    with ok re show ?thesis using deps_ok_join by blast
  next
    case None
    let ?st' = "st\<lparr> sets := (sets st)(next_sid st \<mapsto> []), next_sid := Suc (next_sid st),
        connectionStore := (connectionStore st)(op_target opn \<mapsto> m(k \<mapsto> next_sid st)) \<rparr>"
    have ok': "deps_ok ?st'" by (rule deps_ok_new_set [OF ok])
    have re': "reactions ?st' r = Some re" using re by simp
    from None reg m have "st1 = ?st' \<or>
        st1 = push_cleaner r (next_sid st)
          (?st'\<lparr> sets := (sets ?st')(next_sid st \<mapsto> members ?st' (next_sid st) @ [r]) \<rparr>)"
      by (auto simp: registerReactionForOperation_def k_def Let_def split: if_splits)
    then show ?thesis
    proof
      assume "st1 = ?st'"
      with ok' show ?thesis by simp
    next
      assume "st1 = push_cleaner r (next_sid st)
          (?st'\<lparr> sets := (sets ?st')(next_sid st \<mapsto> members ?st' (next_sid st) @ [r]) \<rparr>)"
      with deps_ok_join [OF ok' re', of "next_sid st"] show ?thesis by simp
    qed
  qed
qed

lemma deps_ok_cong:
  assumes "deps_ok st" and "sets st1 = sets st" and "reactions st1 = reactions st"
    and "reactionStack st1 = reactionStack st" and "next_rid st1 = next_rid st"
  shows "deps_ok st1"
  using assms by (simp add: deps_ok_def members_def)

lemma deps_ok_registerRunning:
  assumes ok: "deps_ok st" and reg: "registerRunningReaction opn st = Some st1"
  shows "deps_ok st1"
proof (cases "getRunningReaction st")
  case None
  with reg ok show ?thesis by (simp add: registerRunningReaction_def)
next
  case (Some r)
  then have "r \<in> set (reactionStack st)"
    by (auto simp: getRunningReaction_def split: if_splits)
  from deps_okD2 [OF ok this] obtain re where "reactions st r = Some re" by blast
  with ok reg Some show ?thesis
    by (auto simp: registerRunningReaction_def intro: deps_ok_register)
qed

lemma deps_ok_reactive:
  assumes ok: "deps_ok st" and r: "reactive r st = Some (p, st1)"
  shows "deps_ok st1"
  using r
  by (auto simp: reactive_def createReactive_def Let_def storeObservable_def
      intro!: deps_ok_cong [OF ok] split: option.splits if_splits obj.splits)

lemma deps_ok_unobserve:
  assumes ok: "deps_ok st" and u: "unobserve r st = Some st1"
  shows "deps_ok st1"
proof -
  from u obtain re where re: "reactions st r = Some re"
    by (auto simp: unobserve_def split: option.splits)
  show ?thesis
  proof (cases "unobserved re")
    case True
    with u re ok show ?thesis by (simp add: unobserve_def)
  next
    case False
    let ?st' = "st\<lparr> reactions := (reactions st)(r \<mapsto> re\<lparr> unobserved := True \<rparr>) \<rparr>"
    have "deps_ok ?st'"
    proof (rule deps_okI)
      fix s x assume "x \<in> set (members ?st' s)"
      then have "x \<in> set (members st s)" by (simp add: members_def)
      from deps_okD1 [OF ok this] re
      show "\<exists>re. reactions ?st' x = Some re \<and> s \<in> set (cleaners re)" by auto
    next
      fix x assume "x \<in> set (reactionStack ?st')"
      then show "\<exists>re. reactions ?st' x = Some re" using deps_okD2 [OF ok, of x] by auto
    next
      fix x assume "next_rid ?st' \<le> x"
      then show "reactions ?st' x = None" using deps_okD3 [OF ok, of x] re by auto
    qed
    then have "deps_ok (releaseReaction r ?st')" by (rule deps_ok_release)
    with u re False show ?thesis by (simp add: unobserve_def)
  qed
qed

lemma deps_ok_new_reaction:
  assumes ok: "deps_ok st" and n: "new_reaction body st = (r, st1)"
  shows "deps_ok st1"
proof -
  from n have st1: "st1 = st\<lparr> reactions := (reactions st)
        (next_rid st \<mapsto> \<lparr> fn = body, cleaners = [], unobserved = False \<rparr>),
      next_rid := Suc (next_rid st) \<rparr>"
    by (auto simp: new_reaction_def)
  have none: "reactions st (next_rid st) = None" using deps_okD3 [OF ok] by simp
  show ?thesis
  proof (rule deps_okI)
    fix s x assume "x \<in> set (members st1 s)"
    then have "x \<in> set (members st s)" by (simp add: st1 members_def)
    from deps_okD1 [OF ok this] none
    show "\<exists>re. reactions st1 x = Some re \<and> s \<in> set (cleaners re)" by (auto simp: st1)
  next
    fix x assume "x \<in> set (reactionStack st1)"
    then show "\<exists>re. reactions st1 x = Some re" using deps_okD2 [OF ok, of x] by (auto simp: st1)
  next
    fix x assume "next_rid st1 \<le> x"
    then show "reactions st1 x = None" using deps_okD3 [OF ok, of x] by (auto simp: st1)
  qed
qed

lemma deps_ok_prim: "prim a b \<Longrightarrow> deps_ok a \<Longrightarrow> deps_ok b"
proof (induction rule: prim.induct)
  case (p_write st t c b0 b)
  then show ?case by (auto simp: put_content_def intro: deps_ok_cong)
qed (auto intro: deps_ok_registerRunning deps_ok_reactive deps_ok_unobserve
    deps_ok_new_reaction)

lemma deps_ok_log: "deps_ok st \<Longrightarrow> deps_ok (log_invoked r a st)"
  by (auto simp: log_invoked_def intro: deps_ok_cong)

lemma deps_ok_pop: "deps_ok st \<Longrightarrow> deps_ok (stack_pop st)"
  by (auto simp: deps_ok_def stack_pop_def members_def dest: in_set_butlastD)

lemma deps_ok_push:
  "deps_ok st \<Longrightarrow> reactions st r = Some re \<Longrightarrow> deps_ok (stack_push r st)"
  by (auto simp: deps_ok_def stack_push_def members_def)

lemma deps_ok_run: "deps_ok st \<Longrightarrow> out_all deps_ok (run n t st)"
proof (rule run_invariant [where P = deps_ok])
  fix s r re a
  assume "deps_ok s" "reactions s r = Some re"
  then show "deps_ok (log_invoked r a (stack_push r (releaseReaction r s)))"
    by (auto intro!: deps_ok_log deps_ok_push [where re = "re\<lparr> cleaners := [] \<rparr>"]
        deps_ok_release simp: reactions_release)
qed (auto intro: deps_ok_prim deps_ok_pop deps_ok_log)

lemma deps_ok_empty: "deps_ok empty_state"
  by (simp add: deps_ok_def empty_state_def members_def)

lemma registry_ok_cong:
  assumes "registry_ok st" and "heap st1 = heap st" and "next_ref st1 = next_ref st"
    and "rawToProxy st1 = rawToProxy st" and "proxyToRaw st1 = proxyToRaw st"
  shows "registry_ok st1"
  using assms by (simp add: registry_ok_def)

lemma registry_ok_prim: "prim a b \<Longrightarrow> registry_ok a \<Longrightarrow> registry_ok b"
proof (induction rule: prim.induct)
  case (p_register opn st st1)
  then show ?case
    by (auto simp: registerRunningReaction_def registerReactionForOperation_def Let_def
        push_cleaner_def intro!: registry_ok_cong [of st]
        split: option.splits if_splits)
next
  case (p_reactive r st p st1)
  then show ?case by (auto intro: registry_ok_reactive)
next
  case (p_write st t c b0 b)
  then show ?case by (auto simp: registry_ok_def put_content_def)
next
  case (p_unobserve r st st1)
  then show ?case
    by (auto simp: unobserve_def releaseReaction_def intro!: registry_ok_cong [of st]
        split: option.splits if_splits)
next
  case (p_new body st r st1)
  then show ?case by (auto simp: new_reaction_def intro!: registry_ok_cong [of st])
qed

lemma registry_ok_run: "registry_ok st \<Longrightarrow> out_all registry_ok (run n t st)"
proof (rule run_invariant [where P = registry_ok])
  fix s r re a
  assume "registry_ok s"
  then show "registry_ok (log_invoked r a (stack_push r (releaseReaction r s)))"
    by (rule registry_ok_cong) (simp_all add: log_invoked_def stack_push_def)
next
  fix s assume "registry_ok s"
  then show "registry_ok (stack_pop s)"
    by (rule registry_ok_cong) (simp_all add: stack_pop_def)
next
  fix s r a assume "registry_ok s"
  then show "registry_ok (log_invoked r a s)"
    by (rule registry_ok_cong) (simp_all add: log_invoked_def)
qed (auto intro: registry_ok_prim)

section \<open>Scenario states\<close>

lemma deps_ok_state_of: "deps_ok st \<Longrightarrow> deps_ok (state_of (run n t st))"
  using deps_ok_run [of st n t]
  by (cases "run n t st") (simp_all add: state_of_def deps_ok_empty)

lemma registry_ok_state_of: "registry_ok st \<Longrightarrow> registry_ok (state_of (run n t st))"
  using registry_ok_run [of st n t]
  by (cases "run n t st") (simp_all add: state_of_def registry_ok_empty)

lemma deps_ok_alloc: "deps_ok st \<Longrightarrow> deps_ok (snd (alloc c b st))"
  by (auto simp: alloc_def intro: deps_ok_cong)

lemma deps_ok_createReactive: "deps_ok st \<Longrightarrow> deps_ok (snd (createReactive r c st))"
  by (auto simp: createReactive_def Let_def storeObservable_def intro: deps_ok_cong)

lemma deps_ok_branch_state: "deps_ok (branch_state va)"
  unfolding branch_state_def
  by (intro deps_ok_createReactive deps_ok_alloc deps_ok_empty)

lemma deps_ok_branch_observed: "deps_ok branch_observed"
  unfolding branch_observed_def by (rule deps_ok_state_of [OF deps_ok_branch_state])

text \<open>A write of an own key that no reaction subscribes to calls no reaction.\<close>

lemma getReactions_key:
  assumes "connectionStore st t = Some m" and "op_target opn = t"
    and "op_type opn = OSet \<or> op_type opn = OGet \<or> op_type opn = OHas \<or> op_type opn = OIterate"
  shows "getReactionsForOperation opn st =
     Some (addReactionsForKey [] st m (store_key (op_key opn)))"
  using assms by (auto simp: getReactionsForOperation_def Let_def)

lemma base_set_unsubscribed:
  assumes p: "heap st p = Some (Proxy t BaseHandlers)"
    and ps: "props_of st t = Some (c, ps)" and own: "hasOwn ps k"
    and m: "connectionStore st t = Some m"
    and none: "\<forall>s. m k = Some s \<longrightarrow> members st s = []"
  shows "\<exists>st1. run (Suc (Suc (Suc n))) (Cmds [CSet (VObj p) k v]) st = Done st1 \<and>
     trace st1 = trace st"
proof -
  define v' where "v' = (if isObject v then deproxy st v else v)"
  define st1 where "st1 = put_content t c (Props (prop_put k v' ps)) st"
  have m1: "connectionStore st1 t = Some m" and mem: "\<And>s. members st1 s = members st s"
    and tr: "trace st1 = trace st"
    using m by (simp_all add: st1_def put_content_def members_def)
  have empty: "addReactionsForKey [] st1 m k = []"
    using none by (auto simp: addReactionsForKey_def mem split: option.splits)
  show ?thesis
  proof (cases "strict_eq (prop_get ps k) v'")
    case True
    with p ps own have "trap (CSet (VObj p) k v) st = Yields st1 (Cmds [])"
      by (simp add: trap_set_def baseHandlers_set_def Let_def v'_def st1_def queue_opt_def)
    then have "run (Suc (Suc (Suc n))) (Cmds [CSet (VObj p) k v]) st = Done st1" by simp
    with tr show ?thesis by blast
  next
    case False
    define opn where "opn = (mk_op OSet t (Some k))
        \<lparr> op_receiver := Some p, op_value := Some v', op_oldValue := Some (prop_get ps k) \<rparr>"
    from False p ps own have b: "baseHandlers_set t k v p st = Some (st1, Some opn)"
      by (simp add: baseHandlers_set_def Let_def v'_def st1_def opn_def)
    have "getReactionsForOperation opn st1 = Some []"
      using getReactions_key [OF m1, of opn] empty
      by (simp add: opn_def mk_op_def store_key_def)
    with b p have "trap (CSet (VObj p) k v) st = Yields st1 (Queue [] opn)"
      by (simp add: trap_set_def queue_opt_def queueReactionsForOperation_def)
    then have "run (Suc (Suc (Suc n))) (Cmds [CSet (VObj p) k v]) st = Done st1" by simp
    with tr show ?thesis by blast
  qed
qed

lemma branch_observed_facts:
  "is_done (run 20 (Cmds [CObserve branch_body]) (branch_state (VNum 1)))"
  "reactions branch_observed 0 = Some \<lparr> fn = branch_body, cleaners = [0, 1], unobserved = False \<rparr>"
  "reactionStack branch_observed = []"
  "members branch_observed 0 = [0]" "members branch_observed 1 = [0]"
  "map event_kind (trace branch_observed) = [(0, None)]"
  by code_simp+

lemma branch_flipped_facts:
  "is_done (run 20 (Cmds [CObserve branch_body, CSet (VObj 1) (KStr ''flag'') (VBool False)])
     (branch_state (VNum 1)))"
  "heap branch_flipped 1 = Some (Proxy 0 BaseHandlers)"
  "props_of branch_flipped 0 =
     Some (Object_ctor, [(KStr ''flag'', VBool False), (KStr ''a'', VNum 1)])"
  "map_option (\<lambda>m. (m (KStr ''flag''), m (KStr ''a''))) (connectionStore branch_flipped 0)
     = Some (Some 0, Some 1)"
  "members branch_flipped 0 = [0]" "members branch_flipped 1 = []"
  "map event_kind (trace branch_flipped) = [(0, None), (0, Some (OSet, Some (KStr ''flag'')))]"
  by code_simp+

section \<open>C8: an exception in a reaction leaves the stack as it was\<close>

text \<open>
  C8. Let \<open>r\<close> be a reaction that is neither stopped nor running, and let its function raise
  the exception \<open>e\<close> (in state \<open>s1\<close>) when \<^verbatim>\<open>runReactionWrap\<close> runs it. Then the call of \<open>r\<close>
  raises \<open>e\<close> to its caller in the state \<open>s1\<close> with the stack popped; while the function ran
  \<open>r\<close> was on top of the stack of the caller, and the stack after the failed call equals the
  stack before it, so the running reaction to which later reads are attributed is the one
  of before.
\<close>

theorem C8_stack_unwound_on_exception:
  assumes re: "reactions st r = Some re" and live: "\<not> unobserved re"
    and nr: "\<not> isRunning r st"
    and body: "run n (Cmds (fn re))
        (log_invoked r a (stack_push r (releaseReaction r st))) = Raised e s1"
  shows "run (Suc n) (Call r a) st = Raised e (stack_pop s1) \<and>
     reactionStack s1 = reactionStack st @ [r] \<and>
     reactionStack (stack_pop s1) = reactionStack st \<and>
     getRunningReaction (stack_pop s1) = getRunningReaction st"
proof -
  let ?s = "log_invoked r a (stack_push r (releaseReaction r st))"
  from run_stack [of ?s n "Cmds (fn re)"] body
  have top: "reactionStack s1 = reactionStack st @ [r]" by simp
  then have popped: "reactionStack (stack_pop s1) = reactionStack st"
    by (rule stack_pop_eq)
  from re live nr body have "run (Suc n) (Call r a) st = Raised e (stack_pop s1)" by simp
  with top popped show ?thesis by (simp add: getRunningReaction_def)
qed

theorem C8_stack_unwound_on_exception_witness:
  "reactions thrower_state 0 = Some \<lparr> fn = [CThrow], cleaners = [], unobserved = False \<rparr> \<and>
   \<not> isRunning 0 thrower_state \<and>
   run (Suc 0) (Cmds [CThrow])
     (log_invoked 0 None (stack_push 0 (releaseReaction 0 thrower_state)))
     = Raised UserError (log_invoked 0 None (stack_push 0 (releaseReaction 0 thrower_state))) \<and>
   run (Suc (Suc 0)) (Call 0 None) thrower_state
     = Raised UserError
         (stack_pop (log_invoked 0 None (stack_push 0 (releaseReaction 0 thrower_state)))) \<and>
   reactionStack
     (stack_pop (log_invoked 0 None (stack_push 0 (releaseReaction 0 thrower_state)))) = [] \<and>
   reactionStack thrower_state = []"
proof -
  let ?re = "\<lparr> fn = [CThrow], cleaners = [], unobserved = False \<rparr>"
  let ?s = "log_invoked 0 None (stack_push 0 (releaseReaction 0 thrower_state))"
  have re: "reactions thrower_state 0 = Some ?re"
    and st: "reactionStack thrower_state = []"
    by (simp_all add: thrower_state_def new_reaction_def empty_state_def)
  have live: "\<not> unobserved ?re" by simp
  have nr: "\<not> isRunning 0 thrower_state" by (simp add: isRunning_def st)
  have body: "run (Suc 0) (Cmds (fn ?re)) ?s = Raised UserError ?s" by simp
  from C8_stack_unwound_on_exception [OF re live nr body] re nr body st
  show ?thesis by simp
qed

section \<open>C7: dependencies are released before every re-run\<close>

text \<open>
  C7. For every reaction \<open>r\<close> that is neither stopped nor running, in a state that satisfies
  the invariant of the dependency store, a call of \<open>r\<close> runs the function in a state in
  which \<open>r\<close> is a member of no dependency Set: \<^verbatim>\<open>releaseReaction\<close> comes first. In the
  scenario of the claim, the reaction that reads \<^verbatim>\<open>o.a\<close> only while \<^verbatim>\<open>o.flag\<close> is truthy is a
  member of the Set of \<^verbatim>\<open>a\<close> after \<^verbatim>\<open>observe\<close>; the write \<^verbatim>\<open>o.flag = false\<close> re-runs it; and
  after that, a write of any value \<open>v\<close> to \<^verbatim>\<open>o.a\<close> ends without calling any reaction.
\<close>

theorem C7_release_before_rerun:
  assumes ok: "deps_ok st" and re: "reactions st r = Some re"
    and live: "\<not> unobserved re" and nr: "\<not> isRunning r st"
  shows "(\<forall>s. r \<notin> set (members (log_invoked r a (stack_push r (releaseReaction r st))) s)) \<and>
     run (Suc n) (Call r a) st =
       (case run n (Cmds (fn re)) (log_invoked r a (stack_push r (releaseReaction r st))) of
          Done s1 \<Rightarrow> Done (stack_pop s1)
        | Raised e s1 \<Rightarrow> Raised e (stack_pop s1)
        | OutOfFuel \<Rightarrow> OutOfFuel
        | Stuck \<Rightarrow> Stuck) \<and>
     members branch_observed 1 = [0] \<and>
     map event_kind (trace branch_flipped)
       = [(0, None), (0, Some (OSet, Some (KStr ''flag'')))] \<and>
     (\<forall>v. \<exists>st1. run (Suc (Suc (Suc 0))) (Cmds [CSet (VObj 1) (KStr ''a'') v]) branch_flipped
          = Done st1 \<and> trace st1 = trace branch_flipped)"
proof -
  have "members (log_invoked r a (stack_push r (releaseReaction r st))) =
      members (releaseReaction r st)"
    by (rule ext) (simp add: members_def log_invoked_def stack_push_def)
  with release_clears [OF ok, of r] re live nr
  have general: "(\<forall>s. r \<notin> set (members
        (log_invoked r a (stack_push r (releaseReaction r st))) s)) \<and>
     run (Suc n) (Call r a) st =
       (case run n (Cmds (fn re)) (log_invoked r a (stack_push r (releaseReaction r st))) of
          Done s1 \<Rightarrow> Done (stack_pop s1)
        | Raised e s1 \<Rightarrow> Raised e (stack_pop s1)
        | OutOfFuel \<Rightarrow> OutOfFuel
        | Stuck \<Rightarrow> Stuck)"
    by simp
  from branch_flipped_facts(4) obtain m where m: "connectionStore branch_flipped 0 = Some m"
    and ma: "m (KStr ''a'') = Some 1"
    by auto
  have own: "hasOwn [(KStr ''flag'', VBool False), (KStr ''a'', VNum 1)] (KStr ''a'')"
    by (simp add: hasOwn_def)
  have none: "\<forall>s. m (KStr ''a'') = Some s \<longrightarrow> members branch_flipped s = []"
    using ma branch_flipped_facts(6) by simp
  have "\<forall>v. \<exists>st1. run (Suc (Suc (Suc 0))) (Cmds [CSet (VObj 1) (KStr ''a'') v]) branch_flipped
          = Done st1 \<and> trace st1 = trace branch_flipped"
    using base_set_unsubscribed [OF branch_flipped_facts(2) branch_flipped_facts(3) own m none]
    by blast
  with general branch_observed_facts(5) branch_flipped_facts(7) show ?thesis by blast
qed

theorem C7_release_before_rerun_witness:
  "deps_ok branch_observed \<and>
   reactions branch_observed 0
     = Some \<lparr> fn = branch_body, cleaners = [0, 1], unobserved = False \<rparr> \<and>
   \<not> isRunning 0 branch_observed \<and> 0 \<in> set (members branch_observed 1) \<and>
   (\<forall>s. 0 \<notin> set (members
      (log_invoked 0 None (stack_push 0 (releaseReaction 0 branch_observed))) s))"
proof -
  let ?re = "\<lparr> fn = branch_body, cleaners = [0, 1], unobserved = False \<rparr>"
  have live: "\<not> unobserved ?re" by simp
  have nr: "\<not> isRunning 0 branch_observed"
    by (simp add: isRunning_def branch_observed_facts(3))
  from C7_release_before_rerun [OF deps_ok_branch_observed branch_observed_facts(2) live nr,
      of None 0]
    deps_ok_branch_observed branch_observed_facts(2) nr branch_observed_facts(5)
  show ?thesis by simp
qed

section \<open>C3: writes and deletes through the wrapper of a plain object\<close>

lemma set_foldl_set_add: "set (foldl set_add acc xs) = set acc \<union> set xs"
  by (induction xs arbitrary: acc) (auto simp: set_add_def)

lemma set_addReactionsForKey:
  "set (addReactionsForKey acc st m k) =
     set acc \<union> (case m k of Some s \<Rightarrow> set (members st s) | None \<Rightarrow> {})"
  by (simp add: addReactionsForKey_def set_foldl_set_add split: option.splits)

lemma getReactions_subscribers:
  assumes "getReactionsForOperation opn st = Some rs"
    and "connectionStore st (op_target opn) = Some m"
    and "m (store_key (op_key opn)) = Some s"
  shows "set (members st s) \<subseteq> set rs"
  using assms
  by (auto simp: getReactionsForOperation_def Let_def set_addReactionsForKey
      split: if_splits)

lemma getReactions_defined:
  "connectionStore st (op_target opn) = Some m \<Longrightarrow> \<exists>rs. getReactionsForOperation opn st = Some rs"
  by (simp add: getReactionsForOperation_def Let_def)

lemma deproxy_isObject: "(if isObject v then deproxy st v else v) = deproxy st v"
  by (cases v) (simp_all add: deproxy_def isObject_def)

lemma put_content_fields [simp]:
  "connectionStore (put_content t c b st) = connectionStore st"
  "members (put_content t c b st) = members st"
  "trace (put_content t c b st) = trace st"
  "proxyToRaw (put_content t c b st) = proxyToRaw st"
  "rawToProxy (put_content t c b st) = rawToProxy st"
  "reactions (put_content t c b st) = reactions st"
  "reactionStack (put_content t c b st) = reactionStack st"
  "heap (put_content t c b st) = (heap st)(t \<mapsto> Raw c b)"
  by (simp_all add: put_content_def members_def fun_eq_iff)

lemma keys_observed_facts:
  "is_done (run 20 (Cmds [CObserve keys_body]) (branch_state (VNum 1)))"
  "heap keys_observed 1 = Some (Proxy 0 BaseHandlers)"
  "props_of keys_observed 0 =
     Some (Object_ctor, [(KStr ''flag'', VBool True), (KStr ''a'', VNum 1)])"
  "connectionStore keys_observed 0 \<noteq> None"
  "keys_events [CSet (VObj 1) (KStr ''a'') (VNum 1)] = Some []"
  "keys_events [CSet (VObj 1) (KStr ''b'') (VNum 2)] = Some [(0, Some (OAdd, Some (KStr ''b'')))]"
  "keys_events [CSet (VObj 1) (KStr ''a'') (VNum 2)] = Some [(0, Some (OSet, Some (KStr ''a'')))]"
  "keys_events [CDelete (VObj 1) (KStr ''b'')] = Some []"
  "keys_events [CDelete (VObj 1) (KStr ''a'')] = Some [(0, Some (ODelete, Some (KStr ''a'')))]"
  by code_simp+

text \<open>
  C3. Let \<open>p\<close> be the wrapper of the plain object \<open>t\<close> with own properties \<open>ps\<close>, and let \<open>v'\<close>
  be the de-wrapped form of the value \<open>v\<close>. A write \<^verbatim>\<open>p[k] = v\<close> of a value that is \<^verbatim>\<open>===\<close> to
  the current value of the own key \<open>k\<close> queues nothing; when \<open>k\<close> is not an own key it queues
  one operation, of kind add; when \<open>k\<close> is an own key whose value is not \<^verbatim>\<open>===\<close> to \<open>v'\<close> it
  queues one operation, of kind set. \<^verbatim>\<open>delete p[k]\<close> queues nothing when \<open>k\<close> is not an own key
  and one operation of kind delete when it is. Every reaction in the Set of \<open>(t, k)\<close> is among
  the reactions the operation is queued for (\<open>run\<close> calls each of them with it).
\<close>

theorem C3_plain_object_write_kinds:
  assumes p: "heap st p = Some (Proxy t BaseHandlers)"
    and ps: "props_of st t = Some (c, ps)"
    and m: "connectionStore st t = Some m"
  shows "(hasOwn ps k \<and> strict_eq (prop_get ps k) (deproxy st v) \<longrightarrow>
        (\<exists>st1. trap (CSet (VObj p) k v) st = Yields st1 (Cmds []))) \<and>
     (\<not> hasOwn ps k \<longrightarrow>
        (\<exists>st1 rs opn. trap (CSet (VObj p) k v) st = Yields st1 (Queue rs opn) \<and>
           op_type opn = OAdd \<and> op_target opn = t \<and> op_key opn = Some k \<and>
           op_value opn = Some (deproxy st v) \<and>
           (\<forall>s. m k = Some s \<longrightarrow> set (members st s) \<subseteq> set rs))) \<and>
     (hasOwn ps k \<and> \<not> strict_eq (prop_get ps k) (deproxy st v) \<longrightarrow>
        (\<exists>st1 rs opn. trap (CSet (VObj p) k v) st = Yields st1 (Queue rs opn) \<and>
           op_type opn = OSet \<and> op_target opn = t \<and> op_key opn = Some k \<and>
           op_value opn = Some (deproxy st v) \<and> op_oldValue opn = Some (prop_get ps k) \<and>
           (\<forall>s. m k = Some s \<longrightarrow> set (members st s) \<subseteq> set rs))) \<and>
     (\<not> hasOwn ps k \<longrightarrow> (\<exists>st1. trap (CDelete (VObj p) k) st = Yields st1 (Cmds []))) \<and>
     (hasOwn ps k \<longrightarrow>
        (\<exists>st1 rs opn. trap (CDelete (VObj p) k) st = Yields st1 (Queue rs opn) \<and>
           op_type opn = ODelete \<and> op_target opn = t \<and> op_key opn = Some k \<and>
           op_oldValue opn = Some (prop_get ps k) \<and>
           (\<forall>s. m k = Some s \<longrightarrow> set (members st s) \<subseteq> set rs)))"
proof -
  define v' where "v' = deproxy st v"
  define st1 where "st1 = put_content t c (Props (prop_put k v' ps)) st"
  define st2 where "st2 = put_content t c (Props (prop_delete k ps)) st"
  have queue: "\<exists>rs. queue_opt (Some opn) s = Yields s (Queue rs opn) \<and>
      (\<forall>x. m k = Some x \<longrightarrow> set (members st x) \<subseteq> set rs)"
    if "op_target opn = t" and "op_key opn = Some k" and "connectionStore s t = Some m"
      and "members s = members st" for opn s
  proof -
    from that getReactions_defined [of s opn m]
    obtain rs where rs: "getReactionsForOperation opn s = Some rs" by auto
    have "\<forall>x. m k = Some x \<longrightarrow> set (members st x) \<subseteq> set rs"
      using getReactions_subscribers [OF rs] that by (auto simp: store_key_def)
    with rs show ?thesis by (simp add: queue_opt_def queueReactionsForOperation_def)
  qed
  have same: "hasOwn ps k \<and> strict_eq (prop_get ps k) v' \<longrightarrow>
      trap (CSet (VObj p) k v) st = Yields st1 (Cmds [])"
    using p ps
    by (simp add: trap_set_def baseHandlers_set_def Let_def deproxy_isObject v'_def st1_def
        queue_opt_def)
  have add: "\<exists>rs opn. trap (CSet (VObj p) k v) st = Yields st1 (Queue rs opn) \<and>
      op_type opn = OAdd \<and> op_target opn = t \<and> op_key opn = Some k \<and>
      op_value opn = Some v' \<and> (\<forall>s. m k = Some s \<longrightarrow> set (members st s) \<subseteq> set rs)"
    if "\<not> hasOwn ps k"
  proof -
    let ?opn = "(mk_op OAdd t (Some k))\<lparr> op_receiver := Some p, op_value := Some v' \<rparr>"
    from that p ps have "trap (CSet (VObj p) k v) st = queue_opt (Some ?opn) st1"
      by (simp add: trap_set_def baseHandlers_set_def Let_def deproxy_isObject v'_def st1_def)
    with queue [of ?opn st1] m show ?thesis
      by (auto simp: mk_op_def st1_def)
  qed
  have upd: "\<exists>rs opn. trap (CSet (VObj p) k v) st = Yields st1 (Queue rs opn) \<and>
      op_type opn = OSet \<and> op_target opn = t \<and> op_key opn = Some k \<and>
      op_value opn = Some v' \<and> op_oldValue opn = Some (prop_get ps k) \<and>
      (\<forall>s. m k = Some s \<longrightarrow> set (members st s) \<subseteq> set rs)"
    if "hasOwn ps k" and "\<not> strict_eq (prop_get ps k) v'"
  proof -
    let ?opn = "(mk_op OSet t (Some k))\<lparr> op_receiver := Some p, op_value := Some v',
        op_oldValue := Some (prop_get ps k) \<rparr>"
    from that p ps have "trap (CSet (VObj p) k v) st = queue_opt (Some ?opn) st1"
      by (simp add: trap_set_def baseHandlers_set_def Let_def deproxy_isObject v'_def st1_def)
    with queue [of ?opn st1] m show ?thesis
      by (auto simp: mk_op_def st1_def)
  qed
  have del0: "\<not> hasOwn ps k \<longrightarrow> trap (CDelete (VObj p) k) st = Yields st2 (Cmds [])"
    using p ps
    by (simp add: trap_delete_def baseHandlers_deleteProperty_def Let_def st2_def queue_opt_def)
  have del: "\<exists>rs opn. trap (CDelete (VObj p) k) st = Yields st2 (Queue rs opn) \<and>
      op_type opn = ODelete \<and> op_target opn = t \<and> op_key opn = Some k \<and>
      op_oldValue opn = Some (prop_get ps k) \<and>
      (\<forall>s. m k = Some s \<longrightarrow> set (members st s) \<subseteq> set rs)"
    if "hasOwn ps k"
  proof -
    let ?opn = "(mk_op ODelete t (Some k))\<lparr> op_oldValue := Some (prop_get ps k) \<rparr>"
    from that p ps have "trap (CDelete (VObj p) k) st = queue_opt (Some ?opn) st2"
      by (simp add: trap_delete_def baseHandlers_deleteProperty_def Let_def st2_def)
    with queue [of ?opn st2] m show ?thesis
      by (auto simp: mk_op_def st2_def)
  qed
  from same add upd del0 del show ?thesis unfolding v'_def by blast
qed

theorem C3_plain_object_write_kinds_witness:
  "heap keys_observed 1 = Some (Proxy 0 BaseHandlers) \<and>
   props_of keys_observed 0 =
     Some (Object_ctor, [(KStr ''flag'', VBool True), (KStr ''a'', VNum 1)]) \<and>
   connectionStore keys_observed 0 = Some (the (connectionStore keys_observed 0)) \<and>
   \<not> hasOwn [(KStr ''flag'', VBool True), (KStr ''a'', VNum 1)] (KStr ''b'') \<and>
   (\<exists>st1 rs opn. trap (CSet (VObj 1) (KStr ''b'') (VNum 2)) keys_observed
        = Yields st1 (Queue rs opn) \<and> op_type opn = OAdd) \<and>
   keys_events [CSet (VObj 1) (KStr ''a'') (VNum 1)] = Some [] \<and>
   keys_events [CSet (VObj 1) (KStr ''b'') (VNum 2)]
     = Some [(0, Some (OAdd, Some (KStr ''b'')))] \<and>
   keys_events [CSet (VObj 1) (KStr ''a'') (VNum 2)]
     = Some [(0, Some (OSet, Some (KStr ''a'')))] \<and>
   keys_events [CDelete (VObj 1) (KStr ''b'')] = Some [] \<and>
   keys_events [CDelete (VObj 1) (KStr ''a'')]
     = Some [(0, Some (ODelete, Some (KStr ''a'')))]"
proof -
  have m: "connectionStore keys_observed 0 = Some (the (connectionStore keys_observed 0))"
    using keys_observed_facts(4) by auto
  have absent: "\<not> hasOwn [(KStr ''flag'', VBool True), (KStr ''a'', VNum 1)] (KStr ''b'')"
    by (simp add: hasOwn_def)
  from C3_plain_object_write_kinds [OF keys_observed_facts(2) keys_observed_facts(3) m,
      of "KStr ''b''" "VNum 2"] absent
  have "\<exists>st1 rs opn. trap (CSet (VObj 1) (KStr ''b'') (VNum 2)) keys_observed
        = Yields st1 (Queue rs opn) \<and> op_type opn = OAdd"
    by blast
  with m absent keys_observed_facts show ?thesis by simp
qed

section \<open>C4: assignment to an index through the wrapper of an array\<close>





section \<open>C5: the descriptor of an array operation\<close>

text \<open>
  C5. On the reactive array \<^verbatim>\<open>[1, 2, 3]\<close> observed by a reaction that reads its length,
  \<^verbatim>\<open>push(4)\<close> calls the reaction once with an operation of kind array whose inserted items are
  \<^verbatim>\<open>[4]\<close> at start index 3, with no deleted items and deleted start -1; \<^verbatim>\<open>splice(1, 1, 9)\<close>
  calls it with inserted items \<^verbatim>\<open>[9]\<close> at start index 1 and deleted items \<^verbatim>\<open>[2]\<close> at start
  index 1, on the fresh array as well as after the push.
\<close>

theorem C5_array_operation_descriptor:
  "arr_events [CMethod (VObj 1) (KStr ''push'') [VNum 4]]
     = Some [(0, Some (OArray, Some (KStr ''push''), Some [VNum 4], Some 3, None, Some (- 1)))] \<and>
   arr_elems [CMethod (VObj 1) (KStr ''push'') [VNum 4]]
     = Some [VNum 1, VNum 2, VNum 3, VNum 4] \<and>
   arr_events [CMethod (VObj 1) (KStr ''splice'') [VNum 1, VNum 1, VNum 9]]
     = Some [(0, Some (OArray, Some (KStr ''splice''), Some [VNum 9], Some 1,
          Some [VNum 2], Some 1))] \<and>
   arr_elems [CMethod (VObj 1) (KStr ''splice'') [VNum 1, VNum 1, VNum 9]]
     = Some [VNum 1, VNum 9, VNum 3] \<and>
   arr_events [CMethod (VObj 1) (KStr ''push'') [VNum 4],
       CMethod (VObj 1) (KStr ''splice'') [VNum 1, VNum 1, VNum 9]]
     = Some [(0, Some (OArray, Some (KStr ''push''), Some [VNum 4], Some 3, None, Some (- 1))),
        (0, Some (OArray, Some (KStr ''splice''), Some [VNum 9], Some 1,
          Some [VNum 2], Some 1))] \<and>
   arr_elems [CMethod (VObj 1) (KStr ''push'') [VNum 4],
       CMethod (VObj 1) (KStr ''splice'') [VNum 1, VNum 1, VNum 9]]
     = Some [VNum 1, VNum 9, VNum 3, VNum 4]"
  by code_simp

section \<open>C6: what a write through a wrapper stores\<close>








section \<open>References of Sets stay fresh\<close>









section \<open>C10: every method read through the wrapper of an array triggers\<close>





subsection \<open>C10 at a method that does not change the array\<close>






section \<open>A stopped reaction outside every Set is never triggered again\<close>

text \<open>What follows a command: commands, a call without operation, or the reactions of an operation.\<close>

lemma queue_opt_follow:
  assumes "queue_opt q st = Yields st1 f"
  shows "(\<exists>cs. f = Cmds cs) \<or> (\<exists>rs opn. f = Queue rs opn \<and> getReactionsForOperation opn st1 = Some rs)"
  using assms
  by (auto simp: queue_opt_def queueReactionsForOperation_def split: option.splits)

lemma trap_set_follow:
  assumes "trap_set v k x st = Yields st1 f"
  shows "(\<exists>cs. f = Cmds cs) \<or> (\<exists>rs opn. f = Queue rs opn \<and> getReactionsForOperation opn st1 = Some rs)"
proof (cases v)
  case (VObj p)
  show ?thesis
  proof (cases st p rule: heap_cases)
    case (Base t)
    with VObj assms show ?thesis
      by (auto simp: trap_set_def dest: queue_opt_follow split: option.splits)
  next
    case (Array t)
    with VObj assms show ?thesis by (auto simp: trap_set_def split: option.splits)
  next
    case (Plain c ps)
    with VObj assms show ?thesis by (auto simp: trap_set_def)
  next
    case (Elems c xs)
    with VObj assms show ?thesis by (auto simp: trap_set_def split: option.splits)
  qed (use VObj assms in \<open>simp_all add: trap_set_def\<close>)
qed (use assms in \<open>simp_all add: trap_set_def\<close>)

lemma trap_delete_follow:
  assumes "trap_delete v k st = Yields st1 f"
  shows "(\<exists>cs. f = Cmds cs) \<or> (\<exists>rs opn. f = Queue rs opn \<and> getReactionsForOperation opn st1 = Some rs)"
proof (cases v)
  case (VObj p)
  show ?thesis
  proof (cases st p rule: heap_cases)
    case (Base t)
    with VObj assms show ?thesis
      by (auto simp: trap_delete_def dest: queue_opt_follow split: option.splits)
  next
    case (Plain c ps)
    with VObj assms show ?thesis by (auto simp: trap_delete_def)
  qed (use VObj assms in \<open>simp_all add: trap_delete_def\<close>)
qed (use assms in \<open>simp_all add: trap_delete_def\<close>)

lemma trap_keys_follow:
  assumes "trap_keys v st = Yields st1 f"
  shows "\<exists>cs. f = Cmds cs"
proof (cases v)
  case (VObj p)
  show ?thesis
  proof (cases st p rule: heap_cases)
    case (Base t)
    with VObj assms show ?thesis
      by (auto simp: trap_keys_def split: result.splits)
  next
    case (Plain c ps)
    with VObj assms show ?thesis by (auto simp: trap_keys_def)
  qed (use VObj assms in \<open>simp_all add: trap_keys_def\<close>)
qed (use assms in \<open>simp_all add: trap_keys_def\<close>)

lemma trap_method_follow:
  assumes "trap_method v k args st = Yields st1 f"
  shows "(\<exists>cs. f = Cmds cs) \<or> (\<exists>rs opn. f = Queue rs opn \<and> getReactionsForOperation opn st1 = Some rs)"
proof (cases v)
  case (VObj p)
  show ?thesis
  proof (cases st p rule: heap_cases)
    case (Array t)
    with VObj assms show ?thesis
      by (auto simp: trap_method_def dest: queue_opt_follow
          split: result.splits getres.splits)
  next
    case (Coll t)
    with VObj assms show ?thesis
      by (auto simp: trap_method_def dest: queue_opt_follow
          split: result.splits key.splits option.splits)
  next
    case (Elems c xs)
    with VObj assms show ?thesis
      by (auto simp: trap_method_def split: val.splits option.splits)
  qed (use VObj assms in \<open>simp_all add: trap_method_def\<close>)
qed (use assms in \<open>simp_all add: trap_method_def\<close>)

lemma trap_follow:
  assumes "trap c st = Yields st1 f"
  shows "(\<exists>cs. f = Cmds cs) \<or> (\<exists>r. f = Call r None) \<or>
     (\<exists>rs opn. f = Queue rs opn \<and> getReactionsForOperation opn st1 = Some rs)"
proof (cases c)
  case (CGet v k)
  with assms show ?thesis by (auto simp: trap_get_def split: result.splits)
next
  case (CIfGet v k c1 c2)
  with assms show ?thesis by (auto simp: trap_get_def split: result.splits)
next
  case (CSet v k x)
  with assms trap_set_follow [of v k x st st1 f] show ?thesis by auto
next
  case (CDelete v k)
  with assms trap_delete_follow [of v k st st1 f] show ?thesis by auto
next
  case (CKeys v)
  with assms trap_keys_follow [of v st st1 f] show ?thesis by auto
next
  case (CMethod v k args)
  with assms trap_method_follow [of v k args st st1 f] show ?thesis by auto
next
  case (CReactive v)
  with assms show ?thesis by (auto split: val.splits option.splits)
next
  case (CObserve body)
  with assms show ?thesis by (auto split: prod.splits)
next
  case (CUnobserve r)
  with assms show ?thesis by (auto split: option.splits)
next
  case (CCall r)
  with assms show ?thesis by auto
next
  case CThrow
  with assms show ?thesis by simp
qed

lemma getReactions_members:
  assumes "getReactionsForOperation opn st = Some rs" and "r \<in> set rs"
  shows "\<exists>s. r \<in> set (members st s)"
  using assms
  by (auto simp: getReactionsForOperation_def Let_def set_addReactionsForKey
      split: option.splits if_splits)

lemma retiredD:
  assumes "retired r evs st"
  shows "\<exists>re. reactions st r = Some re \<and> unobserved re" and "r < next_rid st"
    and "r \<notin> set (reactionStack st)" and "\<And>s. r \<notin> set (members st s)"
    and "triggered r (trace st) = evs"
  using assms by (auto simp: retired_def isRunning_def split: option.splits)

lemma retiredI:
  assumes "reactions st r = Some re" and "unobserved re" and "r < next_rid st"
    and "r \<notin> set (reactionStack st)" and "\<And>s. r \<notin> set (members st s)"
    and "triggered r (trace st) = evs"
  shows "retired r evs st"
  using assms by (simp add: retired_def isRunning_def)

lemma push_cleaner_fields [simp]:
  "sets (push_cleaner x s st) = sets st"
  "members (push_cleaner x s st) = members st"
  "trace (push_cleaner x s st) = trace st"
  "reactionStack (push_cleaner x s st) = reactionStack st"
  "next_rid (push_cleaner x s st) = next_rid st"
  "r \<noteq> x \<Longrightarrow> reactions (push_cleaner x s st) r = reactions st r"
  by (simp_all add: push_cleaner_def members_def fun_eq_iff split: option.splits)

lemma members_sets_upd:
  "members (st\<lparr> sets := (sets st)(s \<mapsto> xs) \<rparr>) s' = (if s' = s then xs else members st s')"
  by (simp add: members_def)

lemma retired_register:
  assumes ret: "retired r evs st" and reg: "registerReactionForOperation x opn st = Some st1"
    and ne: "x \<noteq> r"
  shows "retired r evs st1"
proof -
  from retiredD(1) [OF ret] obtain re where re: "reactions st r = Some re" "unobserved re"
    by blast
  define k where "k = (if op_type opn = OIterate then KSym ITERATION_KEY else store_key (op_key opn))"
  from reg obtain m where m: "connectionStore st (op_target opn) = Some m"
    by (auto simp: registerReactionForOperation_def Let_def split: option.splits)
  have join: "retired r evs (push_cleaner x s (a\<lparr> sets := (sets a)(s \<mapsto> members a s @ [x]) \<rparr>))"
    if "retired r evs a" for a s
  proof -
    from retiredD(1) [OF that] obtain ra where ra: "reactions a r = Some ra" "unobserved ra"
      by blast
    show ?thesis
    proof (rule retiredI)
      show "reactions (push_cleaner x s (a\<lparr> sets := (sets a)(s \<mapsto> members a s @ [x]) \<rparr>)) r
          = Some ra"
        using ra ne by simp
      show "unobserved ra" by (rule ra)
      show "r < next_rid (push_cleaner x s (a\<lparr> sets := (sets a)(s \<mapsto> members a s @ [x]) \<rparr>))"
        using retiredD(2) [OF that] by simp
      show "r \<notin> set (reactionStack
          (push_cleaner x s (a\<lparr> sets := (sets a)(s \<mapsto> members a s @ [x]) \<rparr>)))"
        using retiredD(3) [OF that] by simp
      show "r \<notin> set (members
          (push_cleaner x s (a\<lparr> sets := (sets a)(s \<mapsto> members a s @ [x]) \<rparr>)) s')" for s'
        using retiredD(4) [OF that, of s'] retiredD(4) [OF that, of s] ne
        by (simp add: members_sets_upd)
      show "triggered r (trace
          (push_cleaner x s (a\<lparr> sets := (sets a)(s \<mapsto> members a s @ [x]) \<rparr>))) = evs"
        using retiredD(5) [OF that] by simp
    qed
  qed
  show ?thesis
  proof (cases "m k")
    case (Some s)
    with reg m have "st1 = st \<or>
        st1 = push_cleaner x s (st\<lparr> sets := (sets st)(s \<mapsto> members st s @ [x]) \<rparr>)"
      by (auto simp: registerReactionForOperation_def k_def Let_def split: if_splits)
    with ret join [OF ret] show ?thesis by auto
  next
    case None
    let ?st' = "st\<lparr> sets := (sets st)(next_sid st \<mapsto> []), next_sid := Suc (next_sid st),
        connectionStore := (connectionStore st)(op_target opn \<mapsto> m(k \<mapsto> next_sid st)) \<rparr>"
    have ret': "retired r evs ?st'"
    proof (rule retiredI)
      show "reactions ?st' r = Some re" using re by simp
      show "unobserved re" by (rule re)
      show "r < next_rid ?st'" using retiredD(2) [OF ret] by simp
      show "r \<notin> set (reactionStack ?st')" using retiredD(3) [OF ret] by simp
      show "r \<notin> set (members ?st' s')" for s'
        using retiredD(4) [OF ret, of s'] by (auto simp: members_def split: if_splits)
      show "triggered r (trace ?st') = evs" using retiredD(5) [OF ret] by simp
    qed
    from None reg m have "st1 = ?st' \<or>
        st1 = push_cleaner x (next_sid st)
          (?st'\<lparr> sets := (sets ?st')(next_sid st \<mapsto> members ?st' (next_sid st) @ [x]) \<rparr>)"
      by (auto simp: registerReactionForOperation_def k_def Let_def split: if_splits)
    with ret' join [OF ret', of "next_sid st"] show ?thesis by auto
  qed
qed

lemma retired_cong:
  assumes "retired r evs st" and "reactions st1 = reactions st"
    and "next_rid st1 = next_rid st" and "reactionStack st1 = reactionStack st"
    and "sets st1 = sets st" and "trace st1 = trace st"
  shows "retired r evs st1"
  using assms by (simp add: retired_def isRunning_def members_def)

lemma retired_release:
  assumes ret: "retired r evs st" and ne: "x \<noteq> r"
  shows "retired r evs (releaseReaction x st)"
proof (cases "reactions st x")
  case None
  with ret show ?thesis by (simp add: releaseReaction_def)
next
  case (Some rx)
  from retiredD(1) [OF ret] obtain re where re: "reactions st r = Some re" "unobserved re"
    by blast
  show ?thesis
  proof (rule retiredI)
    show "reactions (releaseReaction x st) r = Some re"
      using re Some ne by (simp add: reactions_release)
    show "unobserved re" by (rule re)
    show "r < next_rid (releaseReaction x st)" using retiredD(2) [OF ret] by simp
    show "r \<notin> set (reactionStack (releaseReaction x st))" using retiredD(3) [OF ret] by simp
    show "r \<notin> set (members (releaseReaction x st) s)" for s
      using retiredD(4) [OF ret, of s] Some by (simp add: members_release)
    show "triggered r (trace (releaseReaction x st)) = evs" using retiredD(5) [OF ret] by simp
  qed
qed

lemma retired_prim: "prim a b \<Longrightarrow> retired r evs a \<Longrightarrow> retired r evs b"
proof (induction rule: prim.induct)
  case (p_register opn st st1)
  show ?case
  proof (cases "getRunningReaction st")
    case None
    with p_register show ?thesis by (simp add: registerRunningReaction_def)
  next
    case (Some x)
    then have "x \<in> set (reactionStack st)"
      by (auto simp: getRunningReaction_def split: if_splits)
    with retiredD(3) [OF p_register(2)] have "x \<noteq> r" by auto
    with p_register Some show ?thesis
      by (auto simp: registerRunningReaction_def intro: retired_register)
  qed
next
  case (p_reactive x st p st1)
  then show ?case
    by (auto simp: reactive_def createReactive_def Let_def storeObservable_def
        intro!: retired_cong [of r evs st] split: option.splits if_splits obj.splits)
next
  case (p_write st t c b0 b)
  then show ?case by (auto simp: put_content_def intro!: retired_cong [of r evs st])
next
  case (p_unobserve x st st1)
  from p_unobserve(1) obtain rx where rx: "reactions st x = Some rx"
    by (auto simp: unobserve_def split: option.splits)
  show ?case
  proof (cases "unobserved rx")
    case True
    with p_unobserve rx show ?thesis by (simp add: unobserve_def)
  next
    case False
    from retiredD(1) [OF p_unobserve(2)] rx False have ne: "x \<noteq> r" by auto
    let ?st' = "st\<lparr> reactions := (reactions st)(x \<mapsto> rx\<lparr> unobserved := True \<rparr>) \<rparr>"
    have "retired r evs ?st'"
      using p_unobserve(2) ne by (simp add: retired_def isRunning_def members_def)
    from retired_release [OF this ne] p_unobserve(1) rx False show ?thesis
      by (simp add: unobserve_def)
  qed
next
  case (p_new body st x st1)
  then show ?case
    by (auto simp: new_reaction_def retired_def isRunning_def members_def)
qed

lemma retired_log:
  "retired r evs st \<Longrightarrow> x \<noteq> r \<or> a = None \<Longrightarrow> retired r evs (log_invoked x a st)"
  by (auto simp: retired_def log_invoked_def isRunning_def members_def triggered_def)

lemma retired_push: "retired r evs st \<Longrightarrow> x \<noteq> r \<Longrightarrow> retired r evs (stack_push x st)"
  by (auto simp: retired_def stack_push_def isRunning_def members_def)

lemma retired_pop: "retired r evs st \<Longrightarrow> retired r evs (stack_pop st)"
  by (auto simp: retired_def stack_pop_def isRunning_def members_def dest: in_set_butlastD)

lemma retired_steps: "steps a b \<Longrightarrow> retired r evs a \<Longrightarrow> retired r evs b"
  by (rule steps_invariant [where P = "retired r evs"]) (auto intro: retired_prim)

lemma retired_follow:
  assumes "trap c st = Yields st1 f" and "retired r evs st1"
  shows "spares r f"
proof -
  from trap_follow [OF assms(1)]
  consider cs where "f = Cmds cs" | x where "f = Call x None"
    | rs opn where "f = Queue rs opn" "getReactionsForOperation opn st1 = Some rs"
    by blast
  then show ?thesis
  proof cases
    case 3
    have "r \<notin> set rs"
    proof
      assume "r \<in> set rs"
      from getReactions_members [OF 3(2) this] retiredD(4) [OF assms(2)] show False by blast
    qed
    with 3 show ?thesis by (simp add: spares_def)
  qed (simp_all add: spares_def)
qed

lemma run_retired:
  "retired r evs st \<Longrightarrow> spares r t \<Longrightarrow> out_all (retired r evs) (run n t st)"
proof (induction n arbitrary: t st)
  case 0
  show ?case by simp
next
  case (Suc n)
  show ?case
  proof (cases t)
    case (Cmds cs)
    show ?thesis
    proof (cases cs)
      case Nil
      with Cmds Suc.prems show ?thesis by simp
    next
      case (Cons c cs')
      have tr: "trap_all (steps st) (trap c st)" by (rule steps_trap)
      show ?thesis
      proof (cases "trap c st")
        case NotModelled
        with Cmds Cons show ?thesis by simp
      next
        case (Throws e st1)
        with tr have "steps st st1" by simp
        then have "retired r evs st1" using Suc.prems(1) by (rule retired_steps)
        with Cmds Cons Throws show ?thesis by simp
      next
        case (Yields st1 f)
        with tr have "steps st st1" by simp
        then have p1: "retired r evs st1" using Suc.prems(1) by (rule retired_steps)
        have sp: "spares r f" by (rule retired_follow [OF Yields p1])
        from Suc.IH [OF p1 sp] have ih: "out_all (retired r evs) (run n f st1)" .
        show ?thesis
        proof (cases "run n f st1")
          case (Done st2)
          with ih have "retired r evs st2" by simp
          from Suc.IH [OF this, of "Cmds cs'"] Cmds Cons Yields Done show ?thesis
            by (simp del: run.simps add: run_Cmds_Cons spares_def)
        qed (use ih Cmds Cons Yields in \<open>simp_all del: run.simps add: run_Cmds_Cons\<close>)
      qed
    qed
  next
    case (Queue rs opn)
    show ?thesis
    proof (cases rs)
      case Nil
      with Queue Suc.prems show ?thesis by simp
    next
      case (Cons x rs')
      from Suc.prems(2) Queue Cons have ne: "x \<noteq> r" and rest: "spares r (Queue rs' opn)"
        by (auto simp: spares_def)
      from ne have "spares r (Call x (Some opn))" by (simp add: spares_def)
      from Suc.IH [OF Suc.prems(1) this]
      have ih: "out_all (retired r evs) (run n (Call x (Some opn)) st)" .
      show ?thesis
      proof (cases "run n (Call x (Some opn)) st")
        case (Done st1)
        with ih have "retired r evs st1" by simp
        from Suc.IH [OF this rest] Queue Cons Done show ?thesis
          by (simp del: run.simps add: run_Queue_Cons)
      qed (use ih Queue Cons in \<open>simp_all del: run.simps add: run_Queue_Cons\<close>)
    qed
  next
    case (Call x a)
    from Suc.prems(2) Call have sp: "x \<noteq> r \<or> a = None" by (simp add: spares_def)
    have body: "spares r (Cmds cs)" for cs by (simp add: spares_def)
    show ?thesis
    proof (cases "reactions st x")
      case None
      with Call show ?thesis by simp
    next
      case (Some rx)
      show ?thesis
      proof (cases "unobserved rx")
        case True
        from Suc.IH [OF retired_log [OF Suc.prems(1) sp] body, of "fn rx"] Call Some True
        show ?thesis by simp
      next
        case False
        from retiredD(1) [OF Suc.prems(1)] Some False have ne: "x \<noteq> r" by auto
        show ?thesis
        proof (cases "isRunning x st")
          case True
          with Call Some False Suc.prems show ?thesis by simp
        next
          case nr: False
          let ?s = "log_invoked x a (stack_push x (releaseReaction x st))"
          have "retired r evs ?s"
            using ne by (intro retired_log retired_push retired_release Suc.prems(1)) simp_all
          from Suc.IH [OF this body]
          have ih: "out_all (retired r evs) (run n (Cmds (fn rx)) ?s)" .
          show ?thesis
            using ih Call Some False nr retired_pop
            by (cases "run n (Cmds (fn rx)) ?s") simp_all
        qed
      qed
    qed
  qed
qed

lemma deps_ok_mark:
  assumes ok: "deps_ok st" and re: "reactions st r = Some re"
  shows "deps_ok (st\<lparr> reactions := (reactions st)(r \<mapsto> re\<lparr> unobserved := True \<rparr>) \<rparr>)"
proof (rule deps_okI)
  let ?st' = "st\<lparr> reactions := (reactions st)(r \<mapsto> re\<lparr> unobserved := True \<rparr>) \<rparr>"
  fix s x assume "x \<in> set (members ?st' s)"
  then have "x \<in> set (members st s)" by (simp add: members_def)
  from deps_okD1 [OF ok this] re
  show "\<exists>re. reactions ?st' x = Some re \<and> s \<in> set (cleaners re)" by auto
next
  fix x assume "x \<in> set (reactionStack (st\<lparr> reactions := (reactions st)(r \<mapsto> re\<lparr> unobserved := True \<rparr>) \<rparr>))"
  then show "\<exists>re'. reactions (st\<lparr> reactions := (reactions st)(r \<mapsto> re\<lparr> unobserved := True \<rparr>) \<rparr>) x = Some re'"
    using deps_okD2 [OF ok, of x] by auto
next
  fix x assume "next_rid (st\<lparr> reactions := (reactions st)(r \<mapsto> re\<lparr> unobserved := True \<rparr>) \<rparr>) \<le> x"
  then show "reactions (st\<lparr> reactions := (reactions st)(r \<mapsto> re\<lparr> unobserved := True \<rparr>) \<rparr>) x = None"
    using deps_okD3 [OF ok, of x] re by auto
qed

lemma unobserve_retires:
  assumes ok: "deps_ok st" and re: "reactions st r = Some re" and live: "\<not> unobserved re"
    and nr: "\<not> isRunning r st" and u: "unobserve r st = Some st1"
  shows "retired r (triggered r (trace st)) st1" and "unobserve r st1 = Some st1"
proof -
  let ?st' = "st\<lparr> reactions := (reactions st)(r \<mapsto> re\<lparr> unobserved := True \<rparr>) \<rparr>"
  from u re live have st1: "st1 = releaseReaction r ?st'" by (simp add: unobserve_def)
  have ok': "deps_ok ?st'" by (rule deps_ok_mark [OF ok re])
  have re': "reactions ?st' r = Some (re\<lparr> unobserved := True \<rparr>)" by simp
  from deps_okD3 [OF ok, of r] re have lt: "r < next_rid st" by (cases "r < next_rid st") auto
  have r1: "reactions st1 r = Some (re\<lparr> unobserved := True, cleaners := [] \<rparr>)"
    unfolding st1 by (simp add: reactions_release [OF re'])
  show "retired r (triggered r (trace st)) st1"
  proof (rule retiredI)
    show "reactions st1 r = Some (re\<lparr> unobserved := True, cleaners := [] \<rparr>)" by (rule r1)
    show "unobserved (re\<lparr> unobserved := True, cleaners := [] \<rparr>)" by simp
    show "r < next_rid st1" using lt by (simp add: st1)
    show "r \<notin> set (reactionStack st1)" using nr by (simp add: st1 isRunning_def)
    show "r \<notin> set (members st1 s)" for s unfolding st1 by (rule release_clears [OF ok'])
    show "triggered r (trace st1) = triggered r (trace st)" by (simp add: st1)
  qed
  from r1 show "unobserve r st1 = Some st1" by (simp add: unobserve_def)
qed

text \<open>
  After \<^verbatim>\<open>unobserve(r)\<close> called while \<open>r\<close> is not running, no program whatever makes
  \<^verbatim>\<open>queueReactionsForOperation\<close> call \<open>r\<close> again.
\<close>

lemma unobserve_outside_run_stops:
  assumes ok: "deps_ok st" and re: "reactions st r = Some re" and live: "\<not> unobserved re"
    and nr: "\<not> isRunning r st" and u: "unobserve r st = Some st1"
  shows "out_all (\<lambda>s. triggered r (trace s) = triggered r (trace st))
     (run n (Cmds prog) st1)"
proof -
  have "out_all (retired r (triggered r (trace st))) (run n (Cmds prog) st1)"
    by (rule run_retired [OF unobserve_retires(1) [OF ok re live nr u]])
      (simp add: spares_def)
  then show ?thesis
    by (cases "run n (Cmds prog) st1") (auto dest: retiredD(5))
qed

section \<open>Wrappers stay registered\<close>

lemma wrappers_okD:
  "wrappers_ok st \<Longrightarrow> heap st p = Some (Proxy t h) \<Longrightarrow>
   proxyToRaw st p = Some t \<and> connectionStore st t \<noteq> None"
  unfolding wrappers_ok_def by blast

lemma wrappers_ok_frame:
  assumes w: "wrappers_ok st" and h: "heap st1 = heap st" and p: "proxyToRaw st1 = proxyToRaw st"
    and c: "\<And>t. connectionStore st t \<noteq> None \<Longrightarrow> connectionStore st1 t \<noteq> None"
  shows "wrappers_ok st1"
  unfolding wrappers_ok_def
proof (intro allI impI)
  fix q t h' assume "heap st1 q = Some (Proxy t h')"
  then have "heap st q = Some (Proxy t h')" by (simp add: h)
  from wrappers_okD [OF w this] show "proxyToRaw st1 q = Some t \<and> connectionStore st1 t \<noteq> None"
    using c [of t] by (simp add: p)
qed

lemma register_keeps:
  assumes "registerReactionForOperation r opn st = Some st1"
  shows "heap st1 = heap st" and "proxyToRaw st1 = proxyToRaw st"
    and "connectionStore st t \<noteq> None \<Longrightarrow> connectionStore st1 t \<noteq> None"
  using assms
  by (auto simp: registerReactionForOperation_def Let_def push_cleaner_def
      split: option.splits if_splits)

lemma wrappers_ok_register:
  assumes "wrappers_ok st" and "registerReactionForOperation r opn st = Some st1"
  shows "wrappers_ok st1"
  using assms(1) register_keeps [OF assms(2)] by (rule wrappers_ok_frame)

lemma wrappers_ok_prim: "prim a b \<Longrightarrow> registry_ok a \<and> wrappers_ok a \<Longrightarrow> wrappers_ok b"
proof (induction rule: prim.induct)
  case (p_register opn st st1)
  then show ?case
    by (auto simp: registerRunningReaction_def intro: wrappers_ok_register
        split: option.splits)
next
  case (p_reactive r st p st1)
  then have ok: "registry_ok st" and w: "wrappers_ok st" by simp_all
  from p_reactive(1)
  have "st1 = st \<or> (\<exists>c b. heap st r = Some (Raw c b) \<and> st1 = snd (createReactive r c st))"
    by (auto simp: reactive_def split: if_splits option.splits obj.splits)
  then consider "st1 = st"
    | c b where "heap st r = Some (Raw c b)" "st1 = snd (createReactive r c st)"
    by blast
  then show ?case
  proof cases
    case 1
    with w show ?thesis by simp
  next
    case 2
    from ok have fresh: "heap st (next_ref st) = None" by (simp add: registry_ok_def)
    have h1: "heap st1 = (heap st)(next_ref st \<mapsto> Proxy r (getHandlers c))"
      and p1: "proxyToRaw st1 = (proxyToRaw st)(next_ref st \<mapsto> r)"
      and c1: "connectionStore st1 = (connectionStore st)(r \<mapsto> Map.empty)"
      using 2(2) by (simp_all add: createReactive_def Let_def storeObservable_def)
    show ?thesis
      unfolding wrappers_ok_def
    proof (intro allI impI)
      fix q t h' assume q: "heap st1 q = Some (Proxy t h')"
      show "proxyToRaw st1 q = Some t \<and> connectionStore st1 t \<noteq> None"
      proof (cases "q = next_ref st")
        case True
        with q show ?thesis by (simp add: h1 p1 c1)
      next
        case False
        with q have "heap st q = Some (Proxy t h')" by (simp add: h1)
        from wrappers_okD [OF w this] False show ?thesis by (simp add: p1 c1)
      qed
    qed
  qed
next
  case (p_write st t c b0 b)
  then have w: "wrappers_ok st" by simp
  show ?case
    unfolding wrappers_ok_def
  proof (intro allI impI)
    fix q t' h' assume "heap (put_content t c b st) q = Some (Proxy t' h')"
    then have "heap st q = Some (Proxy t' h')"
      by (cases "q = t") (simp_all add: put_content_def)
    from wrappers_okD [OF w this]
    show "proxyToRaw (put_content t c b st) q = Some t' \<and>
        connectionStore (put_content t c b st) t' \<noteq> None"
      by (simp add: put_content_def)
  qed
next
  case (p_unobserve r st st1)
  then have w: "wrappers_ok st" by simp
  from p_unobserve(1) show ?case
    by (intro wrappers_ok_frame [OF w])
      (auto simp: unobserve_def releaseReaction_def split: option.splits if_splits)
next
  case (p_new body st r st1)
  then have w: "wrappers_ok st" by simp
  from p_new(1) show ?case
    by (intro wrappers_ok_frame [OF w]) (auto simp: new_reaction_def)
qed

lemma wrappers_ok_run:
  "registry_ok st \<and> wrappers_ok st \<Longrightarrow>
   out_all (\<lambda>s. registry_ok s \<and> wrappers_ok s) (run n t st)"
proof (rule run_invariant [where P = "\<lambda>s. registry_ok s \<and> wrappers_ok s"])
  fix a b assume "registry_ok a \<and> wrappers_ok a" "prim a b"
  then show "registry_ok b \<and> wrappers_ok b"
    using registry_ok_prim [of a b] wrappers_ok_prim [of a b] by blast
next
  fix s r re a
  assume "registry_ok s \<and> wrappers_ok s"
  then show "registry_ok (log_invoked r a (stack_push r (releaseReaction r s))) \<and>
      wrappers_ok (log_invoked r a (stack_push r (releaseReaction r s)))"
    by (auto simp: log_invoked_def stack_push_def
        intro!: registry_ok_cong [of s] wrappers_ok_frame [of s])
next
  fix s assume "registry_ok s \<and> wrappers_ok s"
  then show "registry_ok (stack_pop s) \<and> wrappers_ok (stack_pop s)"
    by (auto simp: stack_pop_def intro!: registry_ok_cong [of s] wrappers_ok_frame [of s])
next
  fix s r a assume "registry_ok s \<and> wrappers_ok s"
  then show "registry_ok (log_invoked r a s) \<and> wrappers_ok (log_invoked r a s)"
    by (auto simp: log_invoked_def intro!: registry_ok_cong [of s] wrappers_ok_frame [of s])
qed

lemma wrappers_ok_empty: "wrappers_ok empty_state"
  by (simp add: wrappers_ok_def empty_state_def)

section \<open>C9: unobserve\<close>

lemma stopped_call_untracked:
  "reactions st r = Some re \<Longrightarrow> unobserved re \<Longrightarrow>
   run (Suc n) (Call r a) st = run n (Cmds (fn re)) (log_invoked r a st)"
  by simp

text \<open>
  C9 at a reaction that stops itself. Reaction 0 calls \<^verbatim>\<open>unobserve\<close> on itself once
  \<^verbatim>\<open>o.flag\<close> is falsy and then reads \<^verbatim>\<open>o.a\<close>. The write \<^verbatim>\<open>o.flag = false\<close> re-runs it: it is
  marked \<^verbatim>\<open>unobserved\<close> and released, but it is still the running reaction, so the read of
  \<^verbatim>\<open>o.a\<close> that follows makes it a member of the Set of \<^verbatim>\<open>a\<close> again. Every later write to
  \<^verbatim>\<open>o.a\<close> then calls it with the operation. When \<^verbatim>\<open>unobserve\<close> is called from outside a run
  of the reaction (last line), a later write calls nothing and a direct call still runs
  the function (\<open>unobserve_outside_run_stops\<close> shows this for every program).
\<close>

theorem C9_unobserve_inside_own_run:
  "stop_events self_stop_body [CSet (VObj 1) (KStr ''flag'') (VBool False)]
     = Some [(0, None), (0, Some (OSet, Some (KStr ''flag'')))] \<and>
   map_option unobserved (reactions (state_of
       (stop_run self_stop_body [CSet (VObj 1) (KStr ''flag'') (VBool False)])) 0) = Some True \<and>
   members (state_of
       (stop_run self_stop_body [CSet (VObj 1) (KStr ''flag'') (VBool False)])) 1 = [0] \<and>
   stop_events self_stop_body [CSet (VObj 1) (KStr ''flag'') (VBool False),
       CSet (VObj 1) (KStr ''a'') (VNum 5), CSet (VObj 1) (KStr ''a'') (VNum 6)]
     = Some [(0, None), (0, Some (OSet, Some (KStr ''flag''))),
         (0, Some (OSet, Some (KStr ''a''))), (0, Some (OSet, Some (KStr ''a'')))] \<and>
   stop_events branch_body [CUnobserve 0, CSet (VObj 1) (KStr ''a'') (VNum 5), CCall 0]
     = Some [(0, None), (0, None)]"
  by code_simp

end
